theory Spec2Isabelle
  imports Complex_Main
begin

section \<open>JavaScript values, stages and configurations\<close>

text \<open>
  The repository holds four revisions of one script.  The revision
  \<^verbatim>\<open>src/unnamed/part_000\<close> is modelled in full (all names without prefix);
  of the revision \<^verbatim>\<open>src/script.js\<close> the functions \<^verbatim>\<open>getNextStage\<close> and
  \<^verbatim>\<open>attemptToProcess\<close> are modelled, with the prefix \<open>script_\<close>.

  Only the JavaScript values the script handles are modelled; the numbers it
  uses are small integers, so \<open>JNumber\<close> carries an \<open>int\<close>.
\<close>

datatype js_value = JUndefined | JNull | JBoolean bool | JNumber int | JString string

text \<open>The truthiness test of \<^verbatim>\<open>if (...)\<close> and \<^verbatim>\<open>!x\<close>.\<close>

fun truthy :: "js_value \<Rightarrow> bool" where
  "truthy JUndefined = False"
| "truthy JNull = False"
| "truthy (JBoolean b) = b"
| "truthy (JNumber n) = (n \<noteq> 0)"
| "truthy (JString s) = (s \<noteq> [])"

datatype error = Error string | TypeError

text \<open>
  \<^verbatim>\<open>const StageTypes = {DOUGHCHEF: 1, TOPPINGCHEF: 2, OVEN: 3, WAITER: 4, DONE: 5}\<close>:
  reading a property the object does not have gives \<^verbatim>\<open>undefined\<close>.
\<close>

definition StageTypes :: "string \<Rightarrow> js_value" where
  "StageTypes k =
     (if k = ''DOUGHCHEF'' then JNumber 1
      else if k = ''TOPPINGCHEF'' then JNumber 2
      else if k = ''OVEN'' then JNumber 3
      else if k = ''WAITER'' then JNumber 4
      else if k = ''DONE'' then JNumber 5
      else JUndefined)"

definition DOUGHCHEF :: js_value where "DOUGHCHEF = StageTypes ''DOUGHCHEF''"
definition TOPPINGCHEF :: js_value where "TOPPINGCHEF = StageTypes ''TOPPINGCHEF''"
definition OVEN :: js_value where "OVEN = StageTypes ''OVEN''"
definition WAITER :: js_value where "WAITER = StageTypes ''WAITER''"
definition DONE :: js_value where "DONE = StageTypes ''DONE''"

text \<open>\<^verbatim>\<open>src/script.js\<close> numbers the stages from 0.\<close>

definition script_StageTypes :: "string \<Rightarrow> js_value" where
  "script_StageTypes k =
     (if k = ''DOUGHCHEF'' then JNumber 0
      else if k = ''TOPPINGCHEF'' then JNumber 1
      else if k = ''OVEN'' then JNumber 2
      else if k = ''WAITER'' then JNumber 3
      else if k = ''DONE'' then JNumber 4
      else JUndefined)"

text \<open>
  \<^verbatim>\<open>PrepStage.getNextStage\<close> of part_000: a \<^verbatim>\<open>switch\<close> compares with \<^verbatim>\<open>===\<close>,
  the cases in their order, and \<^verbatim>\<open>default\<close> throws.
\<close>

definition getNextStage :: "js_value \<Rightarrow> error + js_value" where
  "getNextStage stageType =
     (if stageType = StageTypes ''DOUGHCHEF'' then Inr (StageTypes ''TOPPINGCHEF'')
      else if stageType = StageTypes ''TOPPINGCHEF'' then Inr (StageTypes ''OVEN'')
      else if stageType = StageTypes ''OVEN'' then Inr (StageTypes ''WAITER'')
      else if stageType = StageTypes ''WAITER'' then Inr (StageTypes ''DONE'')
      else Inl (Error ''invalid stage''))"

text \<open>
  \<^verbatim>\<open>PrepStage.getNextStage\<close> of script.js: a first case \<^verbatim>\<open>null\<close>, and the third
  case reads \<^verbatim>\<open>StageTypes.Oven\<close>.
\<close>

definition script_getNextStage :: "js_value \<Rightarrow> error + js_value" where
  "script_getNextStage stageType =
     (if stageType = JNull then Inr (script_StageTypes ''DOUGHCHEF'')
      else if stageType = script_StageTypes ''DOUGHCHEF'' then Inr (script_StageTypes ''TOPPINGCHEF'')
      else if stageType = script_StageTypes ''TOPPINGCHEF'' then Inr (script_StageTypes ''OVEN'')
      else if stageType = script_StageTypes ''Oven'' then Inr (script_StageTypes ''WAITER'')
      else if stageType = script_StageTypes ''WAITER'' then Inr (script_StageTypes ''DONE'')
      else Inl (Error ''invalid stage''))"

text \<open>\<^verbatim>\<open>class PrepConfig\<close>: the constructor stores the seconds as milliseconds.\<close>

record PrepConfig =
  stageType :: js_value
  msToPrep :: nat

definition new_PrepConfig :: "js_value \<Rightarrow> nat \<Rightarrow> PrepConfig" where
  "new_PrepConfig st secondsToPrep = \<lparr>stageType = st, msToPrep = secondsToPrep * 1000\<rparr>"

definition doughChefConfig :: PrepConfig where
  "doughChefConfig = new_PrepConfig DOUGHCHEF 7"
definition toppingChefConfig :: PrepConfig where
  "toppingChefConfig = new_PrepConfig TOPPINGCHEF 4"
definition ovenConfig :: PrepConfig where
  "ovenConfig = new_PrepConfig OVEN 10"
definition waiterConfig :: PrepConfig where
  "waiterConfig = new_PrepConfig WAITER 5"

text \<open>
  The four subclasses of \<^verbatim>\<open>PrepStage\<close>.  A worker object is known by its class
  and the id \<^verbatim>\<open>initPreps\<close> gave it; \<^verbatim>\<open>static getConfig\<close> is looked up in the class.
\<close>

datatype prep_class = DoughChef | ToppingChef | Oven | Waiter

type_synonym prep = "prep_class \<times> nat"

fun getConfig :: "prep_class \<Rightarrow> PrepConfig" where
  "getConfig DoughChef = doughChefConfig"
| "getConfig ToppingChef = toppingChefConfig"
| "getConfig Oven = ovenConfig"
| "getConfig Waiter = waiterConfig"

definition getStage :: "prep \<Rightarrow> js_value" where
  "getStage p = stageType (getConfig (fst p))"

text \<open>
  \<^verbatim>\<open>class Order\<close>.  An order object is known by its id: \<^verbatim>\<open>initOrders\<close> is the only
  place that creates orders and gives each a fresh id.  Times are milliseconds
  on the clock of the model, which starts at 0 when the script is loaded.
\<close>

record order =
  toppingsCount :: nat
  stage :: js_value
  ready :: bool
  startTime :: nat

text \<open>
  \<^verbatim>\<open>calculateProcessingTime\<close>: \<^verbatim>\<open>ToppingChef\<close> overrides the method of \<^verbatim>\<open>PrepStage\<close>
  with \<^verbatim>\<open>Math.ceil(ToppingChef.getConfig().msToPrep * order.toppingsCount/2)\<close>.
\<close>

fun calculateProcessingTime :: "prep \<Rightarrow> order \<Rightarrow> nat" where
  "calculateProcessingTime (ToppingChef, i) ord =
     nat \<lceil>real (msToPrep (getConfig ToppingChef)) * real (toppingsCount ord) / 2\<rceil>"
| "calculateProcessingTime (c, i) ord = msToPrep (getConfig c)"

section \<open>The scheduler of part_000\<close>

text \<open>
  The trace records what the run does in order: the three \<^verbatim>\<open>console.log\<close> lines,
  every write of a \<^verbatim>\<open>ready\<close> flag and every \<^verbatim>\<open>emit\<close>.
\<close>

datatype party = Ord nat | Prep prep

datatype event =
    Log_processing nat prep nat
  | Log_done_order nat nat
  | Log_done_all nat
  | Set_ready party bool
  | Emit party

text \<open>A pending \<^verbatim>\<open>setTimeout\<close>: the instant it is due and the pair its callback closes over.\<close>

record timer =
  due :: nat
  t_order :: nat
  t_prep :: prep

text \<open>
  The globals \<^verbatim>\<open>allPreps\<close>, \<^verbatim>\<open>orders\<close> (stage to bucket; a bucket is the set of
  the ids that are its keys) and \<^verbatim>\<open>ordersSize\<close>, the objects, the pending
  timers, the suspended listener loops (each the list of the calls of
  \<^verbatim>\<open>attemptToProcess\<close> it has still to make), the clock and the trace.
\<close>

record kitchen =
  allPreps :: "js_value \<rightharpoonup> prep list"
  orders :: "js_value \<rightharpoonup> nat set"
  ordersSize :: nat
  order_obj :: "nat \<Rightarrow> order"
  prep_ready :: "prep \<Rightarrow> bool"
  timers :: "timer list"
  pending :: "(nat \<times> prep) list list"
  now :: nat
  trace :: "event list"

definition START_TIME :: nat where
  "START_TIME = 0"

definition console_log :: "event \<Rightarrow> kitchen \<Rightarrow> kitchen" where
  "console_log e s = s\<lparr>trace := trace s @ [e]\<rparr>"

text \<open>\<^verbatim>\<open>class Processor\<close>: \<^verbatim>\<open>isReady\<close>, \<^verbatim>\<open>disableReady\<close>, \<^verbatim>\<open>enableReady\<close>.\<close>

fun isReady :: "party \<Rightarrow> kitchen \<Rightarrow> bool" where
  "isReady (Ord i) s = ready (order_obj s i)"
| "isReady (Prep p) s = prep_ready s p"

fun write_ready :: "party \<Rightarrow> bool \<Rightarrow> kitchen \<Rightarrow> kitchen" where
  "write_ready (Ord i) b s = s\<lparr>order_obj := (order_obj s)(i := (order_obj s i)\<lparr>ready := b\<rparr>)\<rparr>"
| "write_ready (Prep p) b s = s\<lparr>prep_ready := (prep_ready s)(p := b)\<rparr>"

definition disableReady :: "party \<Rightarrow> kitchen \<Rightarrow> kitchen" where
  "disableReady x s = console_log (Set_ready x False) (write_ready x False s)"

definition enableReady :: "party \<Rightarrow> kitchen \<Rightarrow> kitchen" where
  "enableReady x s = console_log (Set_ready x True) (write_ready x True s)"

definition setTimeout :: "nat \<Rightarrow> prep \<Rightarrow> nat \<Rightarrow> kitchen \<Rightarrow> kitchen" where
  "setTimeout i p time s = s\<lparr>timers := timers s @ [\<lparr>due = now s + time, t_order = i, t_prep = p\<rparr>]\<rparr>"

text \<open>
  \<^verbatim>\<open>attemptToProcess\<close>, with the value its promise resolves to.  The two early
  returns give \<^verbatim>\<open>false\<close>.  After \<^verbatim>\<open>await setTimeout(...)\<close> the function body
  ends, so the promise resolves to \<^verbatim>\<open>undefined\<close>; the \<^verbatim>\<open>return true\<close> of the
  source belongs to the timer's callback.
\<close>

definition attemptToProcess :: "nat \<Rightarrow> prep \<Rightarrow> kitchen \<Rightarrow> js_value \<times> kitchen" where
  "attemptToProcess i p s =
     (let canProcess = isReady (Ord i) s \<and> isReady (Prep p) s
                         \<and> stage (order_obj s i) = getStage p
      in if \<not> canProcess then (JBoolean False, s)
         else let time = calculateProcessingTime p (order_obj s i)
              in if time = 0 then (JBoolean False, s)
                 else (JUndefined,
                       setTimeout i p time
                         (console_log (Log_processing i p time)
                           (disableReady (Ord i) (disableReady (Prep p) s)))))"

text \<open>
  The loop of both listeners: \<^verbatim>\<open>if (await attemptToProcess(order, prepStage)) return\<close>.
  \<open>scan\<close> is the loop run to its end (a listener that is awaited, as in
  \<^verbatim>\<open>initOrderProcessing\<close>).  \<open>resume\<close> is one turn of it: a listener run by
  \<^verbatim>\<open>emit\<close> makes its first call of \<^verbatim>\<open>attemptToProcess\<close> at once and suspends
  at the \<^verbatim>\<open>await\<close>; the rest of its loop is queued.
\<close>

fun scan :: "(nat \<times> prep) list \<Rightarrow> kitchen \<Rightarrow> kitchen" where
  "scan [] s = s"
| "scan ((i, p) # rest) s =
     (case attemptToProcess i p s of
        (r, s') \<Rightarrow> if truthy r then s' else scan rest s')"

fun resume :: "(nat \<times> prep) list \<Rightarrow> kitchen \<Rightarrow> kitchen" where
  "resume [] s = s"
| "resume ((i, p) # rest) s =
     (case attemptToProcess i p s of
        (r, s') \<Rightarrow> if truthy r then s' else s'\<lparr>pending := pending s' @ [rest]\<rparr>)"

text \<open>
  The calls a listener makes, in the order of its \<^verbatim>\<open>for ... in\<close>: the indices of
  an array in increasing order, the integer keys of an object in increasing
  order; over \<^verbatim>\<open>undefined\<close> the loop makes no turn.
\<close>

definition freeStageListener_calls :: "prep \<Rightarrow> kitchen \<Rightarrow> (nat \<times> prep) list" where
  "freeStageListener_calls p s =
     (case orders s (getStage p) of
        None \<Rightarrow> []
      | Some ordersAtStage \<Rightarrow> map (\<lambda>i. (i, p)) (sorted_list_of_set ordersAtStage))"

definition freeOrderListener_calls :: "nat \<Rightarrow> kitchen \<Rightarrow> (nat \<times> prep) list" where
  "freeOrderListener_calls i s =
     (if stage (order_obj s i) = DONE then []
      else case allPreps s (stage (order_obj s i)) of
             None \<Rightarrow> []
           | Some prepsAtStage \<Rightarrow> map (\<lambda>p. (i, p)) prepsAtStage)"

definition freeStageListener :: "prep \<Rightarrow> kitchen \<Rightarrow> kitchen" where
  "freeStageListener p s = scan (freeStageListener_calls p s) s"

definition freeOrderListener :: "nat \<Rightarrow> kitchen \<Rightarrow> kitchen" where
  "freeOrderListener i s = scan (freeOrderListener_calls i s) s"

text \<open>\<^verbatim>\<open>this.emit(FREEORDER, {order: this})\<close> and \<^verbatim>\<open>this.emit(FREESTAGE, {prepStage: this})\<close>.\<close>

fun emit :: "party \<Rightarrow> kitchen \<Rightarrow> kitchen" where
  "emit (Ord i) s =
     (let s' = console_log (Emit (Ord i)) s in resume (freeOrderListener_calls i s') s')"
| "emit (Prep p) s =
     (let s' = console_log (Emit (Prep p)) s in resume (freeStageListener_calls p s') s')"

definition logIfDoneProcessingAll :: "kitchen \<Rightarrow> error + kitchen" where
  "logIfDoneProcessingAll s =
     (case orders s DONE of
        None \<Rightarrow> Inl TypeError
      | Some done \<Rightarrow>
          Inr (if card done = ordersSize s
               then console_log (Log_done_all (now s - START_TIME)) s else s))"

definition moveOrder :: "nat \<Rightarrow> js_value \<Rightarrow> kitchen \<Rightarrow> error + kitchen" where
  "moveOrder i priorStage s =
     (case orders s priorStage of
        None \<Rightarrow> Inl TypeError
      | Some prior \<Rightarrow>
          (let s1 = s\<lparr>orders := (orders s)(priorStage \<mapsto> prior - {i})\<rparr>
           in (case orders s1 (stage (order_obj s1 i)) of
                 None \<Rightarrow> Inl TypeError
               | Some bucket \<Rightarrow>
                   logIfDoneProcessingAll
                     (s1\<lparr>orders := (orders s1)(stage (order_obj s1 i) \<mapsto> insert i bucket)\<rparr>))))"

definition logIfDoneProcessing :: "nat \<Rightarrow> kitchen \<Rightarrow> kitchen" where
  "logIfDoneProcessing i s =
     (if stage (order_obj s i) = DONE
      then console_log (Log_done_order i (now s - startTime (order_obj s i))) s else s)"

definition Order_postProcess :: "nat \<Rightarrow> kitchen \<Rightarrow> error + kitchen" where
  "Order_postProcess i s =
     (let priorStage = stage (order_obj s i)
      in case getNextStage priorStage of
           Inl e \<Rightarrow> Inl e
         | Inr next \<Rightarrow>
             (let s1 = s\<lparr>order_obj := (order_obj s)(i := (order_obj s i)\<lparr>stage := next\<rparr>)\<rparr>
              in (case moveOrder i priorStage (logIfDoneProcessing i s1) of
                    Inl e \<Rightarrow> Inl e
                  | Inr s2 \<Rightarrow> Inr (emit (Ord i) (enableReady (Ord i) s2)))))"

definition PrepStage_postProcess :: "prep \<Rightarrow> kitchen \<Rightarrow> kitchen" where
  "PrepStage_postProcess p s = emit (Prep p) (enableReady (Prep p) s)"

text \<open>The callback of the timer: \<^verbatim>\<open>order.postProcess(); prepStage.postProcess()\<close>.\<close>

definition completion :: "nat \<Rightarrow> prep \<Rightarrow> kitchen \<Rightarrow> error + kitchen" where
  "completion i p s =
     (case Order_postProcess i s of
        Inl e \<Rightarrow> Inl e
      | Inr s' \<Rightarrow> Inr (PrepStage_postProcess p s'))"

subsection \<open>Start of the script\<close>

definition no_order :: order where
  "no_order = \<lparr>toppingsCount = 0, stage = JUndefined, ready = False, startTime = 0\<rparr>"

definition empty_kitchen :: kitchen where
  "empty_kitchen =
     \<lparr>allPreps = Map.empty, orders = Map.empty, ordersSize = 0, order_obj = (\<lambda>i. no_order),
      prep_ready = (\<lambda>p. False), timers = [], pending = [], now = 0, trace = []\<rparr>"

text \<open>\<^verbatim>\<open>initPreps(cl, count)\<close>: the workers \<^verbatim>\<open>new cl(1)\<close> ... \<^verbatim>\<open>new cl(count)\<close>, each ready.\<close>

definition initPreps :: "prep_class \<Rightarrow> nat \<Rightarrow> kitchen \<Rightarrow> prep list \<times> kitchen" where
  "initPreps cl count s =
     (map (\<lambda>i. (cl, i)) [1..<Suc count],
      s\<lparr>prep_ready := (\<lambda>p. if fst p = cl \<and> 1 \<le> snd p \<and> snd p \<le> count then True
                            else prep_ready s p)\<rparr>)"

definition onScriptStart :: "kitchen \<Rightarrow> kitchen" where
  "onScriptStart s =
     (case initPreps DoughChef 2 s of (doughChefs, s1) \<Rightarrow>
      case initPreps ToppingChef 3 s1 of (toppingChefs, s2) \<Rightarrow>
      case initPreps Oven 1 s2 of (ovens, s3) \<Rightarrow>
      case initPreps Waiter 2 s3 of (waiters, s4) \<Rightarrow>
        s4\<lparr>allPreps := [DOUGHCHEF \<mapsto> doughChefs, TOPPINGCHEF \<mapsto> toppingChefs,
                        OVEN \<mapsto> ovens, WAITER \<mapsto> waiters],
           orders := [DOUGHCHEF \<mapsto> {}, TOPPINGCHEF \<mapsto> {}, OVEN \<mapsto> {},
                      WAITER \<mapsto> {}, DONE \<mapsto> {}]\<rparr>)"

text \<open>
  \<^verbatim>\<open>initOrders(countOrders)\<close>.  The list holds the values that the calls of
  \<^verbatim>\<open>getRandomToppingsCount\<close> return, one for each order; its length is
  \<^verbatim>\<open>countOrders\<close>.  The ids start at 1.
\<close>

definition new_Order :: "nat \<Rightarrow> kitchen \<Rightarrow> order" where
  "new_Order c s = \<lparr>toppingsCount = c, stage = DOUGHCHEF, ready = True, startTime = now s\<rparr>"

fun initOrders_from :: "nat \<Rightarrow> nat list \<Rightarrow> kitchen \<Rightarrow> error + kitchen" where
  "initOrders_from i [] s = Inr s"
| "initOrders_from i (c # cs) s =
     (let s1 = s\<lparr>order_obj := (order_obj s)(i := new_Order c s)\<rparr>
      in case orders s1 (stage (order_obj s1 i)) of
           None \<Rightarrow> Inl TypeError
         | Some bucket \<Rightarrow>
             initOrders_from (Suc i) cs
               (s1\<lparr>orders := (orders s1)(stage (order_obj s1 i) \<mapsto> insert i bucket),
                   ordersSize := Suc (ordersSize s1)\<rparr>))"

definition initOrders :: "nat list \<Rightarrow> kitchen \<Rightarrow> error + kitchen" where
  "initOrders toppings s = initOrders_from 1 toppings s"

definition initOrderProcessing :: "kitchen \<Rightarrow> kitchen" where
  "initOrderProcessing s =
     (case orders s DOUGHCHEF of
        None \<Rightarrow> s
      | Some ordersAtInitStage \<Rightarrow> fold freeOrderListener (sorted_list_of_set ordersAtInitStage) s)"

definition script_start :: "nat list \<Rightarrow> error + kitchen" where
  "script_start toppings =
     (case initOrders toppings (onScriptStart empty_kitchen) of
        Inl e \<Rightarrow> Inl e
      | Inr s \<Rightarrow> Inr (initOrderProcessing s))"

subsection \<open>The event loop\<close>

text \<open>
  After the start the event loop runs.  While listener loops are suspended
  one of them takes its next turn (a microtask); a timer fires only when none
  is left, and it is a timer that is due first.  The callback then reads a
  clock that has not gone back and is not before the instant the timer is due:
  \<^verbatim>\<open>setTimeout\<close> promises no more, and \<^verbatim>\<open>Date.now()\<close> in the callback is as a
  rule some milliseconds later.  A callback that throws ends the run.
\<close>

inductive step :: "kitchen \<Rightarrow> kitchen \<Rightarrow> bool" where
  microtask: "pending s = before @ calls # after \<Longrightarrow>
     step s (resume calls (s\<lparr>pending := before @ after\<rparr>))"
| fire: "pending s = [] \<Longrightarrow> t \<in> set (timers s) \<Longrightarrow> \<forall>u \<in> set (timers s). due t \<le> due u \<Longrightarrow>
     due t \<le> clock \<Longrightarrow> now s \<le> clock \<Longrightarrow>
     completion (t_order t) (t_prep t) (s\<lparr>timers := remove1 t (timers s), now := clock\<rparr>) = Inr s' \<Longrightarrow>
     step s s'"

inductive reachable :: "nat list \<Rightarrow> kitchen \<Rightarrow> bool" for toppings where
  at_start: "script_start toppings = Inr s \<Longrightarrow> reachable toppings s"
| after_step: "reachable toppings s \<Longrightarrow> step s s' \<Longrightarrow> reachable toppings s'"

section \<open>\<^verbatim>\<open>attemptToProcess\<close> of script.js\<close>

text \<open>
  In script.js a worker holds \<^verbatim>\<open>startTime\<close> (\<^verbatim>\<open>null\<close>, or \<^verbatim>\<open>Date.now()\<close> while it
  works) and \<^verbatim>\<open>isReady\<close> is \<^verbatim>\<open>!this.startTime\<close>; an order holds \<^verbatim>\<open>ready\<close>.  The
  configurations carry the stage numbers of script.js.
\<close>

fun script_getConfig :: "prep_class \<Rightarrow> PrepConfig" where
  "script_getConfig DoughChef = new_PrepConfig (script_StageTypes ''DOUGHCHEF'') 7"
| "script_getConfig ToppingChef = new_PrepConfig (script_StageTypes ''TOPPINGCHEF'') 4"
| "script_getConfig Oven = new_PrepConfig (script_StageTypes ''OVEN'') 10"
| "script_getConfig Waiter = new_PrepConfig (script_StageTypes ''WAITER'') 5"

record script_order =
  s_toppingsCount :: nat
  s_stage :: js_value
  s_ready :: bool

fun script_calculateProcessingTime :: "prep \<Rightarrow> script_order \<Rightarrow> nat" where
  "script_calculateProcessingTime (ToppingChef, i) ord =
     nat \<lceil>real (msToPrep (script_getConfig ToppingChef)) * real (s_toppingsCount ord) / 2\<rceil>"
| "script_calculateProcessingTime (c, i) ord = msToPrep (script_getConfig c)"

record script_kitchen =
  s_order_obj :: "nat \<Rightarrow> script_order"
  s_startTime :: "prep \<Rightarrow> js_value"
  s_timers :: "timer list"
  s_now :: nat
  s_log :: "(nat \<times> prep) list"

definition script_attemptToProcess ::
    "nat \<Rightarrow> prep \<Rightarrow> script_kitchen \<Rightarrow> js_value \<times> script_kitchen" where
  "script_attemptToProcess i p s =
     (let canProcess = s_ready (s_order_obj s i) \<and> \<not> truthy (s_startTime s p)
                         \<and> s_stage (s_order_obj s i) = stageType (script_getConfig (fst p))
      in if \<not> canProcess then (JBoolean False, s)
         else let s1 = s\<lparr>s_startTime := (s_startTime s)(p := JNumber (int (s_now s)))\<rparr>;
                  s2 = s1\<lparr>s_order_obj := (s_order_obj s1)(i := (s_order_obj s1 i)\<lparr>s_ready := False\<rparr>)\<rparr>;
                  s3 = s2\<lparr>s_log := s_log s2 @ [(i, p)]\<rparr>;
                  time = script_calculateProcessingTime p (s_order_obj s3 i)
              in (JUndefined,
                  s3\<lparr>s_timers := s_timers s3 @ [\<lparr>due = s_now s3 + time, t_order = i, t_prep = p\<rparr>]\<rparr>))"

section \<open>Notions for the proofs\<close>

subsection \<open>The two outcomes of \<^verbatim>\<open>attemptToProcess\<close>\<close>

text \<open>
  \<open>starts i p s\<close> says that the call passes both returns, and \<open>started i p s\<close> is
  the state it then leaves; that \<^verbatim>\<open>attemptToProcess\<close> is described by the two is
  proved below (\<open>attemptToProcess_start\<close>, \<open>attemptToProcess_no_start\<close>).
\<close>

definition starts :: "nat \<Rightarrow> prep \<Rightarrow> kitchen \<Rightarrow> bool" where
  "starts i p s \<longleftrightarrow>
     isReady (Ord i) s \<and> isReady (Prep p) s \<and> stage (order_obj s i) = getStage p
     \<and> calculateProcessingTime p (order_obj s i) \<noteq> 0"

definition started :: "nat \<Rightarrow> prep \<Rightarrow> kitchen \<Rightarrow> kitchen" where
  "started i p s =
     s\<lparr>order_obj := (order_obj s)(i := (order_obj s i)\<lparr>ready := False\<rparr>),
       prep_ready := (prep_ready s)(p := False),
       timers := timers s @ [\<lparr>due = now s + calculateProcessingTime p (order_obj s i),
                               t_order = i, t_prep = p\<rparr>],
       trace := trace s @ [Set_ready (Prep p) False, Set_ready (Ord i) False,
                           Log_processing i p (calculateProcessingTime p (order_obj s i))]\<rparr>"

subsection \<open>Invariants\<close>

text \<open>
  The ids of the orders that \<^verbatim>\<open>initOrders\<close> creates, and the five keys of \<^verbatim>\<open>orders\<close>.
\<close>

definition created :: "nat list \<Rightarrow> nat set" where
  "created toppings = {i. 1 \<le> i \<and> i \<le> length toppings}"

definition stages :: "js_value set" where
  "stages = {DOUGHCHEF, TOPPINGCHEF, OVEN, WAITER, DONE}"

text \<open>
  The registry: all five buckets exist, and a bucket holds the created orders whose
  stage is its key.  The pairings: no order and no worker in two pending timers; the
  order of a timer is a created one, both parties are busy, they are of one stage, and
  the time that was computed is not 0.  The suspended loops only name created orders;
  no order changes its toppings count; the line of \<^verbatim>\<open>logIfDoneProcessingAll\<close> was
  written at most once, and only if every order is done.
\<close>

definition registry_ok :: "nat list \<Rightarrow> kitchen \<Rightarrow> bool" where
  "registry_ok toppings s \<longleftrightarrow>
     ordersSize s = length toppings
     \<and> (\<forall>st \<in> stages. orders s st \<noteq> None)
     \<and> (\<forall>i \<in> created toppings. stage (order_obj s i) \<in> stages)
     \<and> (\<forall>st b. orders s st = Some b \<longrightarrow> b = {i \<in> created toppings. stage (order_obj s i) = st})"

definition pairings_ok :: "nat list \<Rightarrow> kitchen \<Rightarrow> bool" where
  "pairings_ok toppings s \<longleftrightarrow>
     distinct (map t_order (timers s)) \<and> distinct (map t_prep (timers s))
     \<and> (\<forall>t \<in> set (timers s).
           t_order t \<in> created toppings
           \<and> \<not> isReady (Ord (t_order t)) s \<and> \<not> isReady (Prep (t_prep t)) s
           \<and> stage (order_obj s (t_order t)) = getStage (t_prep t)
           \<and> calculateProcessingTime (t_prep t) (order_obj s (t_order t)) \<noteq> 0)"

definition pending_ok :: "nat list \<Rightarrow> kitchen \<Rightarrow> bool" where
  "pending_ok toppings s \<longleftrightarrow> (\<forall>calls \<in> set (pending s). \<forall>c \<in> set calls. fst c \<in> created toppings)"

definition toppings_ok :: "nat list \<Rightarrow> kitchen \<Rightarrow> bool" where
  "toppings_ok toppings s \<longleftrightarrow>
     (\<forall>i \<in> created toppings. toppingsCount (order_obj s i) = toppings ! (i - 1))"

fun is_Log_done_all :: "event \<Rightarrow> bool" where
  "is_Log_done_all (Log_done_all d) = True"
| "is_Log_done_all e = False"

definition done_log_ok :: "nat list \<Rightarrow> kitchen \<Rightarrow> bool" where
  "done_log_ok toppings s \<longleftrightarrow>
     length (filter is_Log_done_all (trace s)) \<le> 1
     \<and> ((\<exists>e \<in> set (trace s). is_Log_done_all e) \<longrightarrow>
          (\<forall>i \<in> created toppings. stage (order_obj s i) = DONE))"

definition invariant :: "nat list \<Rightarrow> kitchen \<Rightarrow> bool" where
  "invariant toppings s \<longleftrightarrow>
     registry_ok toppings s \<and> pairings_ok toppings s \<and> pending_ok toppings s
     \<and> toppings_ok toppings s \<and> done_log_ok toppings s"

text \<open>
  The state in which \<^verbatim>\<open>Order.postProcess\<close> calls \<^verbatim>\<open>enableReady\<close>, written out for
  a registry that is consistent: the stage is written, the order is in the bucket of
  its new stage only, and the lines of \<^verbatim>\<open>logIfDoneProcessing\<close> and
  \<^verbatim>\<open>logIfDoneProcessingAll\<close> are in the trace.  That \<^verbatim>\<open>Order.postProcess\<close> reaches
  this state is proved below (\<open>Order_postProcess_moved\<close>).
\<close>

definition moved :: "nat \<Rightarrow> js_value \<Rightarrow> kitchen \<Rightarrow> kitchen" where
  "moved i next s =
     (let prior = stage (order_obj s i);
          buckets = (orders s)(prior \<mapsto> {j \<in> {1..ordersSize s}. j \<noteq> i \<and> stage (order_obj s j) = prior},
                                next \<mapsto> insert i {j \<in> {1..ordersSize s}. stage (order_obj s j) = next});
          all_done = (\<forall>j \<in> {1..ordersSize s}. j \<noteq> i \<longrightarrow> stage (order_obj s j) = DONE)
      in s\<lparr>order_obj := (order_obj s)(i := (order_obj s i)\<lparr>stage := next\<rparr>),
           orders := buckets,
           trace := trace s
             @ (if next = DONE then [Log_done_order i (now s - startTime (order_obj s i))] else [])
             @ (if next = DONE \<and> all_done then [Log_done_all (now s - START_TIME)] else [])\<rparr>)"

text \<open>What holds after \<^verbatim>\<open>onScriptStart\<close> and \<^verbatim>\<open>initOrders\<close>.\<close>

definition start_buckets :: "js_value \<rightharpoonup> nat set" where
  "start_buckets = [DOUGHCHEF \<mapsto> {}, TOPPINGCHEF \<mapsto> {}, OVEN \<mapsto> {}, WAITER \<mapsto> {}, DONE \<mapsto> {}]"

definition init_ok :: "nat list \<Rightarrow> kitchen \<Rightarrow> bool" where
  "init_ok xs s \<longleftrightarrow>
     ordersSize s = length xs
     \<and> orders s = start_buckets(DOUGHCHEF \<mapsto> {1..length xs})
     \<and> (\<forall>j \<in> {1..length xs}. order_obj s j = new_Order (xs ! (j - 1)) s)
     \<and> timers s = [] \<and> pending s = [] \<and> trace s = [] \<and> now s = 0"

declare emit.simps [simp del]

text \<open>An order without toppings does not get past the topping stage.\<close>

definition stuck_ok :: "nat list \<Rightarrow> kitchen \<Rightarrow> bool" where
  "stuck_ok toppings s \<longleftrightarrow>
     (\<forall>i \<in> created toppings. toppingsCount (order_obj s i) = 0 \<longrightarrow>
        stage (order_obj s i) = DOUGHCHEF \<or> stage (order_obj s i) = TOPPINGCHEF)"

subsection \<open>Runs and states for evaluation\<close>

text \<open>
  A run with the choices fixed: the suspended listener loop that was queued first takes
  its turn first, and of the timers that are due first the one that was set first fires.
  The first argument bounds the number of steps.  The second gives, for each timer
  that fires in turn, the milliseconds by which its callback is late (none, once the
  list is used up).  \<open>run\<close> is the run in which no callback is late.
\<close>

fun earliest :: "timer list \<Rightarrow> timer option" where
  "earliest [] = None"
| "earliest (t # ts) =
     (case earliest ts of
        None \<Rightarrow> Some t
      | Some u \<Rightarrow> if due u < due t then Some u else Some t)"

fun run_late :: "nat \<Rightarrow> nat list \<Rightarrow> kitchen \<Rightarrow> error + kitchen" where
  "run_late 0 late s = Inr s"
| "run_late (Suc n) late s =
     (case pending s of
        calls # after \<Rightarrow> run_late n late (resume calls (s\<lparr>pending := after\<rparr>))
      | [] \<Rightarrow>
         (case earliest (timers s) of
            None \<Rightarrow> Inr s
          | Some t \<Rightarrow>
              (case completion (t_order t) (t_prep t)
                      (s\<lparr>timers := remove1 t (timers s),
                         now := max (now s) (due t + (case late of [] \<Rightarrow> 0 | l # ls \<Rightarrow> l))\<rparr>) of
                 Inl e \<Rightarrow> Inl e
               | Inr s' \<Rightarrow> run_late n (tl late) s')))"

definition run :: "nat \<Rightarrow> kitchen \<Rightarrow> error + kitchen" where
  "run n s = run_late n [] s"

definition run_script_late :: "nat \<Rightarrow> nat list \<Rightarrow> nat list \<Rightarrow> error + kitchen" where
  "run_script_late n late toppings =
     (case script_start toppings of Inl e \<Rightarrow> Inl e | Inr s \<Rightarrow> run_late n late s)"

definition run_script :: "nat \<Rightarrow> nat list \<Rightarrow> error + kitchen" where
  "run_script n toppings =
     (case script_start toppings of Inl e \<Rightarrow> Inl e | Inr s \<Rightarrow> run n s)"

text \<open>The lines of \<^verbatim>\<open>console.log\<close> in a trace.\<close>

definition logs :: "event list \<Rightarrow> event list" where
  "logs = filter (\<lambda>e. case e of Set_ready x b \<Rightarrow> False | Emit x \<Rightarrow> False | _ \<Rightarrow> True)"

text \<open>The state in which \<^verbatim>\<open>initOrderProcessing\<close> starts, for the given toppings counts.\<close>

definition fresh_kitchen :: "nat list \<Rightarrow> kitchen" where
  "fresh_kitchen toppings = projr (initOrders toppings (onScriptStart empty_kitchen))"

text \<open>
  A state of script.js in which the orders are free at the given stage with the given
  toppings count and every worker is free; \<^verbatim>\<open>Date.now()\<close> is a time of the year 2023.
\<close>

definition script_kitchen_at :: "js_value \<Rightarrow> nat \<Rightarrow> script_kitchen" where
  "script_kitchen_at st c =
     \<lparr>s_order_obj = (\<lambda>i. \<lparr>s_toppingsCount = c, s_stage = st, s_ready = True\<rparr>),
      s_startTime = (\<lambda>p. JNull), s_timers = [], s_now = 1700000000000, s_log = []\<rparr>"

text \<open>
  The events that matter for the order of a callback: an \<^verbatim>\<open>emit\<close>, and a call of
  \<^verbatim>\<open>enableReady\<close>.  A quiet piece of trace has neither.
\<close>

fun is_trigger_or_enable :: "event \<Rightarrow> bool" where
  "is_trigger_or_enable (Emit x) = True"
| "is_trigger_or_enable (Set_ready x b) = b"
| "is_trigger_or_enable e = False"

definition quiet :: "event list \<Rightarrow> bool" where
  "quiet es \<longleftrightarrow> (\<forall>e \<in> set es. \<not> is_trigger_or_enable e)"

section \<open>Stage successor and durations\<close>

lemma stage_values:
  "DOUGHCHEF = JNumber 1" "TOPPINGCHEF = JNumber 2" "OVEN = JNumber 3"
  "WAITER = JNumber 4" "DONE = JNumber 5"
  by (simp_all add: DOUGHCHEF_def TOPPINGCHEF_def OVEN_def WAITER_def DONE_def StageTypes_def)

lemma getNextStage_stages:
  "getNextStage DOUGHCHEF = Inr TOPPINGCHEF"
  "getNextStage TOPPINGCHEF = Inr OVEN"
  "getNextStage OVEN = Inr WAITER"
  "getNextStage WAITER = Inr DONE"
  by (simp_all add: getNextStage_def stage_values StageTypes_def)

lemma getNextStage_other:
  "v \<notin> {DOUGHCHEF, TOPPINGCHEF, OVEN, WAITER} \<Longrightarrow> getNextStage v = Inl (Error ''invalid stage'')"
  by (simp add: getNextStage_def stage_values StageTypes_def)

lemma getNextStage_Inr:
  "getNextStage v = Inr w \<longleftrightarrow>
     (v = DOUGHCHEF \<and> w = TOPPINGCHEF) \<or> (v = TOPPINGCHEF \<and> w = OVEN) \<or>
     (v = OVEN \<and> w = WAITER) \<or> (v = WAITER \<and> w = DONE)"
  by (auto simp add: getNextStage_def stage_values StageTypes_def)

lemma calculateProcessingTime_topping:
  "calculateProcessingTime (ToppingChef, i) ord = 2000 * toppingsCount ord"
proof -
  have "real (msToPrep (getConfig ToppingChef)) * real (toppingsCount ord) / 2
        = real_of_int (int (2000 * toppingsCount ord))"
    by (simp add: toppingChefConfig_def new_PrepConfig_def)
  then have "\<lceil>real (msToPrep (getConfig ToppingChef)) * real (toppingsCount ord) / 2\<rceil>
        = int (2000 * toppingsCount ord)"
    by (simp only: ceiling_of_int)
  then show ?thesis by simp
qed

lemma calculateProcessingTime_other:
  "c \<noteq> ToppingChef \<Longrightarrow> calculateProcessingTime (c, i) ord = msToPrep (getConfig c)"
  by (cases c) simp_all

declare calculateProcessingTime.simps [simp del]

lemma calculateProcessingTime_zero:
  "calculateProcessingTime p ord = 0 \<longleftrightarrow> fst p = ToppingChef \<and> toppingsCount ord = 0"
proof (cases p)
  case (Pair c i)
  then show ?thesis
    by (cases c)
      (simp_all add: calculateProcessingTime_topping calculateProcessingTime_other
        doughChefConfig_def ovenConfig_def waiterConfig_def new_PrepConfig_def)
qed

lemma getStage_class:
  "getStage p = DOUGHCHEF \<longleftrightarrow> fst p = DoughChef"
  "getStage p = TOPPINGCHEF \<longleftrightarrow> fst p = ToppingChef"
  "getStage p = OVEN \<longleftrightarrow> fst p = Oven"
  "getStage p = WAITER \<longleftrightarrow> fst p = Waiter"
  "getStage p \<noteq> DONE"
  by (cases "fst p";
      simp add: getStage_def doughChefConfig_def toppingChefConfig_def ovenConfig_def
        waiterConfig_def new_PrepConfig_def stage_values)+

lemma script_getNextStage_null:
  "script_getNextStage JNull = Inr (script_StageTypes ''DOUGHCHEF'')"
  "script_getNextStage JUndefined = Inr (script_StageTypes ''WAITER'')"
  by (simp_all add: script_getNextStage_def script_StageTypes_def)

text \<open>
  C2.  In script.js the successor of the oven stage is not the waiter stage:
  \<^verbatim>\<open>case StageTypes.Oven\<close> compares with \<^verbatim>\<open>undefined\<close>, so the oven stage falls
  through to \<^verbatim>\<open>default\<close> and \<^verbatim>\<open>getNextStage\<close> throws.  In part_000 the same
  call returns the waiter stage.
\<close>

theorem script_getNextStage_oven_throws:
  "script_getNextStage (script_StageTypes ''OVEN'') = Inl (Error ''invalid stage'')
   \<and> getNextStage (StageTypes ''OVEN'') = Inr (StageTypes ''WAITER'')"
  by (simp add: script_getNextStage_def script_StageTypes_def getNextStage_def StageTypes_def)

text \<open>
  C5.  A worker of the topping stage computes the ceiling of the configured
  duration of the topping stage times the order's toppings count, halved; a
  worker of any other stage computes the configured duration of its stage,
  whatever the order.
\<close>

theorem calculateProcessingTime_formula:
  "(getStage p = TOPPINGCHEF \<longrightarrow>
      calculateProcessingTime p ord
        = nat \<lceil>real (msToPrep toppingChefConfig) * real (toppingsCount ord) / 2\<rceil>)
   \<and> (getStage p \<noteq> TOPPINGCHEF \<longrightarrow>
      calculateProcessingTime p ord = msToPrep (getConfig (fst p))
      \<and> calculateProcessingTime p ord' = calculateProcessingTime p ord)"
proof (cases p)
  case (Pair c i)
  show ?thesis
  proof (cases "c = ToppingChef")
    case True
    with Pair show ?thesis
      by (simp add: getStage_class calculateProcessingTime.simps)
  next
    case False
    with Pair show ?thesis
      by (simp add: getStage_class calculateProcessingTime_other)
  qed
qed

theorem calculateProcessingTime_formula_witness:
  "getStage (ToppingChef, 1) = TOPPINGCHEF
   \<and> calculateProcessingTime (ToppingChef, 1)
        \<lparr>toppingsCount = 3, stage = TOPPINGCHEF, ready = True, startTime = 0\<rparr> = 6000
   \<and> getStage (Oven, 1) \<noteq> TOPPINGCHEF
   \<and> calculateProcessingTime (Oven, 1)
        \<lparr>toppingsCount = 3, stage = OVEN, ready = True, startTime = 0\<rparr> = 10000"
  using calculateProcessingTime_formula [of "(ToppingChef, 1)"
      "\<lparr>toppingsCount = 3, stage = TOPPINGCHEF, ready = True, startTime = 0\<rparr>"]
    calculateProcessingTime_formula [of "(Oven, 1)"
      "\<lparr>toppingsCount = 3, stage = OVEN, ready = True, startTime = 0\<rparr>"]
  by (simp add: getStage_class toppingChefConfig_def ovenConfig_def new_PrepConfig_def)

section \<open>The scheduler keeps its invariants\<close>

lemma attemptToProcess_no_start:
  "\<not> starts i p s \<Longrightarrow> attemptToProcess i p s = (JBoolean False, s)"
  by (auto simp add: attemptToProcess_def starts_def Let_def)

lemma attemptToProcess_start:
  "starts i p s \<Longrightarrow> attemptToProcess i p s = (JUndefined, started i p s)"
  by (simp add: attemptToProcess_def starts_def started_def Let_def setTimeout_def
      console_log_def disableReady_def)

lemma attemptToProcess_falsy: "\<not> truthy (fst (attemptToProcess i p s))"
  by (cases "starts i p s") (simp_all add: attemptToProcess_no_start attemptToProcess_start)

lemma scan_Cons: "scan ((i, p) # rest) s = scan rest (snd (attemptToProcess i p s))"
  using attemptToProcess_falsy [of i p s] by (simp add: split_beta)

lemma resume_Cons:
  "resume ((i, p) # rest) s =
     (snd (attemptToProcess i p s))\<lparr>pending := pending (snd (attemptToProcess i p s)) @ [rest]\<rparr>"
  using attemptToProcess_falsy [of i p s] by (simp add: split_beta)

lemma registry_ok_cong:
  "ordersSize s' = ordersSize s \<Longrightarrow> orders s' = orders s \<Longrightarrow>
   (\<And>i. stage (order_obj s' i) = stage (order_obj s i)) \<Longrightarrow>
   registry_ok toppings s' = registry_ok toppings s"
  by (simp add: registry_ok_def)

lemma pending_ok_cong:
  "pending s' = pending s \<Longrightarrow> pending_ok toppings s' = pending_ok toppings s"
  by (simp add: pending_ok_def)

lemma toppings_ok_cong:
  "(\<And>i. toppingsCount (order_obj s' i) = toppingsCount (order_obj s i)) \<Longrightarrow>
   toppings_ok toppings s' = toppings_ok toppings s"
  by (simp add: toppings_ok_def)

lemma done_log_ok_cong:
  "filter is_Log_done_all (trace s') = filter is_Log_done_all (trace s) \<Longrightarrow>
   (\<And>i. stage (order_obj s' i) = stage (order_obj s i)) \<Longrightarrow>
   done_log_ok toppings s' = done_log_ok toppings s"
proof -
  assume f: "filter is_Log_done_all (trace s') = filter is_Log_done_all (trace s)"
    and st: "\<And>i. stage (order_obj s' i) = stage (order_obj s i)"
  have "(\<exists>e \<in> set (trace s'). is_Log_done_all e) = (\<exists>e \<in> set (trace s). is_Log_done_all e)"
    using f by (metis filter_False filter_empty_conv)
  then show ?thesis
    by (simp add: done_log_ok_def f st)
qed

lemma started_registry_ok: "registry_ok toppings (started i p s) = registry_ok toppings s"
  by (rule registry_ok_cong) (simp_all add: started_def)

lemma started_pending_ok: "pending_ok toppings (started i p s) = pending_ok toppings s"
  by (rule pending_ok_cong) (simp add: started_def)

lemma started_toppings_ok: "toppings_ok toppings (started i p s) = toppings_ok toppings s"
  by (rule toppings_ok_cong) (simp add: started_def)

lemma started_done_log_ok: "done_log_ok toppings (started i p s) = done_log_ok toppings s"
  by (rule done_log_ok_cong) (simp_all add: started_def)

lemma started_pairings_ok:
  assumes ok: "pairings_ok toppings s" and st: "starts i p s" and cr: "i \<in> created toppings"
  shows "pairings_ok toppings (started i p s)"
proof -
  have old: "\<forall>t \<in> set (timers s). t_order t \<noteq> i \<and> t_prep t \<noteq> p"
    using ok st by (auto simp add: pairings_ok_def starts_def)
  then have ni: "i \<notin> t_order ` set (timers s)" and np: "p \<notin> t_prep ` set (timers s)"
    by auto
  have d1: "distinct (map t_order (timers (started i p s)))"
    using ok ni by (simp add: pairings_ok_def started_def)
  have d2: "distinct (map t_prep (timers (started i p s)))"
    using ok np by (simp add: pairings_ok_def started_def)
  have each: "t_order t \<in> created toppings
           \<and> \<not> isReady (Ord (t_order t)) (started i p s)
           \<and> \<not> isReady (Prep (t_prep t)) (started i p s)
           \<and> stage (order_obj (started i p s) (t_order t)) = getStage (t_prep t)
           \<and> calculateProcessingTime (t_prep t) (order_obj (started i p s) (t_order t)) \<noteq> 0"
    if t: "t \<in> set (timers (started i p s))" for t
  proof (cases "t \<in> set (timers s)")
    case True
    then have "t_order t \<noteq> i" "t_prep t \<noteq> p" using old by auto
    then show ?thesis
      using ok True by (simp add: pairings_ok_def started_def)
  next
    case False
    then have "t = \<lparr>due = now s + calculateProcessingTime p (order_obj s i), t_order = i, t_prep = p\<rparr>"
      using t by (simp add: started_def)
    then have tt: "t_order t = i" "t_prep t = p" by simp_all
    have "calculateProcessingTime p ((order_obj s i)\<lparr>ready := False\<rparr>)
          = calculateProcessingTime p (order_obj s i)"
      by (cases p; cases "fst p = ToppingChef")
        (simp_all add: calculateProcessingTime_topping calculateProcessingTime_other)
    then show ?thesis
      using st cr tt by (simp add: starts_def started_def)
  qed
  show ?thesis
    unfolding pairings_ok_def using d1 d2 each by blast
qed

lemma started_invariant:
  "invariant toppings s \<Longrightarrow> starts i p s \<Longrightarrow> i \<in> created toppings \<Longrightarrow>
   invariant toppings (started i p s)"
  by (simp add: invariant_def started_registry_ok started_pending_ok started_toppings_ok
      started_done_log_ok started_pairings_ok)

lemma attemptToProcess_invariant:
  "invariant toppings s \<Longrightarrow> i \<in> created toppings \<Longrightarrow>
   invariant toppings (snd (attemptToProcess i p s))"
  by (cases "starts i p s")
    (simp_all add: attemptToProcess_no_start attemptToProcess_start started_invariant)

lemma pending_update_invariant:
  "invariant toppings s \<Longrightarrow> \<forall>calls \<in> set q. \<forall>c \<in> set calls. fst c \<in> created toppings \<Longrightarrow>
   invariant toppings (s\<lparr>pending := q\<rparr>)"
  by (simp add: invariant_def pairings_ok_def pending_ok_def
      registry_ok_cong [of "s\<lparr>pending := q\<rparr>" s] toppings_ok_cong [of "s\<lparr>pending := q\<rparr>" s]
      done_log_ok_cong [of "s\<lparr>pending := q\<rparr>" s])

lemma attemptToProcess_pending: "pending (snd (attemptToProcess i p s)) = pending s"
  by (cases "starts i p s")
    (simp_all add: attemptToProcess_no_start attemptToProcess_start started_def)

lemma resume_invariant:
  "invariant toppings s \<Longrightarrow> \<forall>c \<in> set calls. fst c \<in> created toppings \<Longrightarrow>
   invariant toppings (resume calls s)"
proof (cases calls)
  case Nil
  then show "invariant toppings s \<Longrightarrow> invariant toppings (resume calls s)" by simp
next
  case (Cons c rest)
  assume inv: "invariant toppings s" and cr: "\<forall>c \<in> set calls. fst c \<in> created toppings"
  obtain i p where c: "c = (i, p)" by (cases c)
  have 1: "invariant toppings (snd (attemptToProcess i p s))"
    using inv cr Cons c by (simp add: attemptToProcess_invariant)
  have 2: "pending_ok toppings (snd (attemptToProcess i p s))"
    using 1 by (simp add: invariant_def)
  show ?thesis
    unfolding Cons c resume_Cons
    by (rule pending_update_invariant [OF 1]) (use 2 cr Cons in \<open>auto simp add: pending_ok_def\<close>)
qed

lemma scan_invariant:
  "invariant toppings s \<Longrightarrow> \<forall>c \<in> set calls. fst c \<in> created toppings \<Longrightarrow>
   invariant toppings (scan calls s)"
proof (induction calls arbitrary: s)
  case Nil
  then show ?case by simp
next
  case (Cons c rest)
  obtain i p where c: "c = (i, p)" by (cases c)
  show ?case
    unfolding c scan_Cons
    using Cons c by (simp add: attemptToProcess_invariant)
qed

lemma created_atLeastAtMost: "created toppings = {1..length toppings}"
  by (auto simp add: created_def)

lemma finite_created: "finite (created toppings)"
  by (simp add: created_atLeastAtMost)

lemma card_created: "card (created toppings) = length toppings"
  by (simp add: created_atLeastAtMost)

lemma stages_distinct:
  "DOUGHCHEF \<noteq> TOPPINGCHEF" "DOUGHCHEF \<noteq> OVEN" "DOUGHCHEF \<noteq> WAITER" "DOUGHCHEF \<noteq> DONE"
  "TOPPINGCHEF \<noteq> OVEN" "TOPPINGCHEF \<noteq> WAITER" "TOPPINGCHEF \<noteq> DONE"
  "OVEN \<noteq> WAITER" "OVEN \<noteq> DONE" "WAITER \<noteq> DONE"
  by (simp_all add: stage_values)

lemma getNextStage_of_worker: "\<exists>next. getNextStage (getStage p) = Inr next"
proof (cases "fst p")
  case DoughChef
  then have "getStage p = DOUGHCHEF" by (simp add: getStage_class)
  then show ?thesis by (simp add: getNextStage_stages)
next
  case ToppingChef
  then have "getStage p = TOPPINGCHEF" by (simp add: getStage_class)
  then show ?thesis by (simp add: getNextStage_stages)
next
  case Oven
  then have "getStage p = OVEN" by (simp add: getStage_class)
  then show ?thesis by (simp add: getNextStage_stages)
next
  case Waiter
  then have "getStage p = WAITER" by (simp add: getStage_class)
  then show ?thesis by (simp add: getNextStage_stages)
qed

lemma getStage_in_stages: "getStage p \<in> stages"
  by (cases "fst p")
     (simp_all add: getStage_def stages_def stage_values
        doughChefConfig_def toppingChefConfig_def ovenConfig_def waiterConfig_def new_PrepConfig_def)

lemma registry_bucket:
  "registry_ok toppings s \<Longrightarrow> st \<in> stages \<Longrightarrow>
   orders s st = Some {j \<in> {1..ordersSize s}. stage (order_obj s j) = st}"
  by (auto simp add: registry_ok_def created_atLeastAtMost)

lemma all_done_card:
  assumes "i \<in> {1..n}"
  shows "card (insert i {j \<in> {1..n::nat}. P j}) = n \<longleftrightarrow> (\<forall>j \<in> {1..n}. j \<noteq> i \<longrightarrow> P j)"
proof
  assume c: "card (insert i {j \<in> {1..n}. P j}) = n"
  have "insert i {j \<in> {1..n}. P j} \<subseteq> {1..n}" using assms by auto
  moreover have "card {1..n} = n" by simp
  ultimately have "insert i {j \<in> {1..n}. P j} = {1..n}"
    using c by (metis card_subset_eq finite_atLeastAtMost)
  then show "\<forall>j \<in> {1..n}. j \<noteq> i \<longrightarrow> P j" by blast
next
  assume "\<forall>j \<in> {1..n}. j \<noteq> i \<longrightarrow> P j"
  then have "insert i {j \<in> {1..n}. P j} = {1..n}" using assms by auto
  then show "card (insert i {j \<in> {1..n}. P j}) = n" by simp
qed

lemma moveOrder_moved:
  assumes reg: "registry_ok toppings s" and cr: "i \<in> created toppings"
    and nx: "getNextStage (stage (order_obj s i)) = Inr next"
  shows "moveOrder i (stage (order_obj s i))
           (logIfDoneProcessing i
             (s\<lparr>order_obj := (order_obj s)(i := (order_obj s i)\<lparr>stage := next\<rparr>)\<rparr>))
         = Inr (moved i next s)"
proof -
  let ?prior = "stage (order_obj s i)"
  define bP where "bP = {j \<in> {1..ordersSize s}. stage (order_obj s j) = ?prior}"
  define bP' where "bP' = {j \<in> {1..ordersSize s}. j \<noteq> i \<and> stage (order_obj s j) = ?prior}"
  define bN where "bN = {j \<in> {1..ordersSize s}. stage (order_obj s j) = next}"
  define bD where "bD = {j \<in> {1..ordersSize s}. stage (order_obj s j) = DONE}"
  define all_done where
    "all_done \<longleftrightarrow> (\<forall>j \<in> {1..ordersSize s}. j \<noteq> i \<longrightarrow> stage (order_obj s j) = DONE)"
  have n: "ordersSize s = length toppings" using reg by (simp add: registry_ok_def)
  have i: "i \<in> {1..ordersSize s}" using cr n by (simp add: created_atLeastAtMost)
  have pn: "?prior \<noteq> next" "?prior \<noteq> DONE" "?prior \<in> stages" "next \<in> stages"
    using nx by (auto simp add: getNextStage_Inr stages_def stage_values)
  have dn: "DONE \<in> stages" by (simp add: stages_def)
  have b1: "orders s ?prior = Some bP" and b2: "orders s next = Some bN"
    and b3: "orders s DONE = Some bD"
    unfolding bP_def bN_def bD_def using reg pn dn by (simp_all add: registry_bucket)
  have e1: "bP - {i} = bP'" unfolding bP_def bP'_def by auto
  have e2: "(card (insert i bD) = ordersSize s) = all_done"
    unfolding bD_def all_done_def using i by (rule all_done_card)
  have e3: "card bD \<noteq> ordersSize s"
  proof
    assume c: "card bD = ordersSize s"
    have "bD \<subseteq> {1..ordersSize s}" unfolding bD_def by auto
    moreover have "card {1..ordersSize s} = ordersSize s" by simp
    ultimately have "bD = {1..ordersSize s}"
      using c by (metis card_subset_eq finite_atLeastAtMost)
    then have "stage (order_obj s i) = DONE" using i unfolding bD_def by blast
    then show False using pn by simp
  qed
  have mv: "moved i next s =
     s\<lparr>order_obj := (order_obj s)(i := (order_obj s i)\<lparr>stage := next\<rparr>),
       orders := (orders s)(?prior \<mapsto> bP', next \<mapsto> insert i bN),
       trace := trace s
             @ (if next = DONE then [Log_done_order i (now s - startTime (order_obj s i))] else [])
             @ (if next = DONE \<and> all_done then [Log_done_all (now s - START_TIME)] else [])\<rparr>"
    unfolding bP'_def bN_def all_done_def by (simp add: moved_def Let_def)
  show ?thesis
  proof (cases "next = DONE")
    case True
    then have "bN = bD" by (simp add: bN_def bD_def)
    then show ?thesis
      unfolding mv using True pn b1 b3 e1 e2
      by (simp add: moveOrder_def logIfDoneProcessing_def logIfDoneProcessingAll_def
          console_log_def Let_def)
  next
    case False
    then show ?thesis
      unfolding mv using pn b1 b2 b3 e1 e3
      by (simp add: moveOrder_def logIfDoneProcessing_def logIfDoneProcessingAll_def
          console_log_def Let_def)
  qed
qed

lemma Order_postProcess_moved:
  assumes reg: "registry_ok toppings s" and cr: "i \<in> created toppings"
    and nx: "getNextStage (stage (order_obj s i)) = Inr next"
  shows "Order_postProcess i s = Inr (emit (Ord i) (enableReady (Ord i) (moved i next s)))"
  using nx moveOrder_moved [OF reg cr nx]
  by (simp add: Order_postProcess_def Let_def del: emit.simps)

lemma distinct_map_remove1: "distinct (map f xs) \<Longrightarrow> distinct (map f (remove1 x xs))"
proof (induction xs)
  case Nil
  then show ?case by simp
next
  case (Cons a xs)
  have "set (remove1 x xs) \<subseteq> set xs" by (rule set_remove1_subset)
  then show ?case using Cons by auto
qed

lemma notin_map_remove1:
  "distinct (map f xs) \<Longrightarrow> x \<in> set xs \<Longrightarrow> f x \<notin> f ` set (remove1 x xs)"
proof (induction xs)
  case Nil
  then show ?case by simp
next
  case (Cons a xs)
  show ?case
  proof (cases "x = a")
    case True
    then show ?thesis using Cons.prems by auto
  next
    case False
    then have xs: "x \<in> set xs" using Cons.prems by simp
    then have "f x \<in> f ` set xs" by simp
    then have "f x \<noteq> f a" using Cons.prems by auto
    then show ?thesis using False Cons xs by auto
  qed
qed

lemma moved_registry_ok:
  assumes reg: "registry_ok toppings s" and cr: "i \<in> created toppings"
    and nx: "getNextStage (stage (order_obj s i)) = Inr next"
  shows "registry_ok toppings (moved i next s)"
proof -
  let ?prior = "stage (order_obj s i)"
  let ?s' = "moved i next s"
  have n: "ordersSize s = length toppings" using reg by (simp add: registry_ok_def)
  have cre: "created toppings = {1..ordersSize s}" by (simp add: created_atLeastAtMost n)
  have pn: "?prior \<noteq> next" "?prior \<in> stages" "next \<in> stages"
    using nx by (auto simp add: getNextStage_Inr stages_def stage_values)
  have st': "stage (order_obj ?s' j) = (if j = i then next else stage (order_obj s j))" for j
    by (simp add: moved_def Let_def)
  have a: "ordersSize ?s' = length toppings" using n by (simp add: moved_def Let_def)
  have b: "\<forall>st \<in> stages. orders ?s' st \<noteq> None"
    using reg by (simp add: moved_def Let_def registry_ok_def)
  have c: "\<forall>j \<in> created toppings. stage (order_obj ?s' j) \<in> stages"
    using reg pn by (simp add: st' registry_ok_def)
  have d: "b = {j \<in> created toppings. stage (order_obj ?s' j) = st}"
    if o: "orders ?s' st = Some b" for st b
  proof -
    consider "st = next" | "st \<noteq> next" "st = ?prior" | "st \<noteq> next" "st \<noteq> ?prior" by blast
    then show ?thesis
    proof cases
      case 1
      then have "b = insert i {j \<in> {1..ordersSize s}. stage (order_obj s j) = next}"
        using o by (simp add: moved_def Let_def)
      then show ?thesis using 1 cr by (auto simp add: st' cre)
    next
      case 2
      then have "b = {j \<in> {1..ordersSize s}. j \<noteq> i \<and> stage (order_obj s j) = ?prior}"
        using o by (simp add: moved_def Let_def)
      then show ?thesis using 2 pn by (auto simp add: st' cre)
    next
      case 3
      then have "orders s st = Some b" using o by (simp add: moved_def Let_def)
      then have "b = {j \<in> created toppings. stage (order_obj s j) = st}"
        using reg by (simp add: registry_ok_def)
      then show ?thesis using 3 by (auto simp add: st')
    qed
  qed
  show ?thesis
    unfolding registry_ok_def using a b c d by blast
qed

lemma no_done_all_before:
  assumes "done_log_ok toppings s" and "i \<in> created toppings" and "stage (order_obj s i) \<noteq> DONE"
  shows "filter is_Log_done_all (trace s) = []"
  using assms by (auto simp add: done_log_ok_def filter_empty_conv)

lemma moved_done_log_ok:
  assumes reg: "registry_ok toppings s" and dl: "done_log_ok toppings s"
    and cr: "i \<in> created toppings"
    and nx: "getNextStage (stage (order_obj s i)) = Inr next"
  shows "done_log_ok toppings (moved i next s)"
proof -
  let ?s' = "moved i next s"
  have n: "ordersSize s = length toppings" using reg by (simp add: registry_ok_def)
  have cre: "created toppings = {1..ordersSize s}" by (simp add: created_atLeastAtMost n)
  have "stage (order_obj s i) \<noteq> DONE"
    using nx by (auto simp add: getNextStage_Inr stage_values)
  then have none: "filter is_Log_done_all (trace s) = []"
    using no_done_all_before [OF dl cr] by simp
  define all_done where
    "all_done \<longleftrightarrow> (\<forall>j \<in> {1..ordersSize s}. j \<noteq> i \<longrightarrow> stage (order_obj s j) = DONE)"
  have f: "filter is_Log_done_all (trace ?s')
           = (if next = DONE \<and> all_done then [Log_done_all (now s - START_TIME)] else [])"
    using none unfolding all_done_def by (simp add: moved_def Let_def)
  have st': "stage (order_obj ?s' j) = (if j = i then next else stage (order_obj s j))" for j
    by (simp add: moved_def Let_def)
  have ex: "(\<exists>e \<in> set (trace ?s'). is_Log_done_all e) \<longleftrightarrow> filter is_Log_done_all (trace ?s') \<noteq> []"
    by (simp add: filter_empty_conv)
  show ?thesis
    unfolding done_log_ok_def ex f
    by (auto simp add: st' cre all_done_def)
qed

lemma moved_pairings_ok:
  assumes ok: "pairings_ok toppings s" and ni: "i \<notin> t_order ` set (timers s)"
  shows "pairings_ok toppings (moved i next s)"
proof -
  have o: "order_obj (moved i next s) j = order_obj s j" if "j \<noteq> i" for j
    using that by (simp add: moved_def Let_def)
  have t: "timers (moved i next s) = timers s" "prep_ready (moved i next s) = prep_ready s"
    by (simp_all add: moved_def Let_def)
  have "t_order t \<noteq> i" if "t \<in> set (timers s)" for t using that ni by auto
  then show ?thesis
    using ok by (simp add: pairings_ok_def t o)
qed

lemma moved_invariant:
  assumes inv: "invariant toppings s" and cr: "i \<in> created toppings"
    and ni: "i \<notin> t_order ` set (timers s)"
    and nx: "getNextStage (stage (order_obj s i)) = Inr next"
  shows "invariant toppings (moved i next s)"
proof -
  have "pending_ok toppings (moved i next s) = pending_ok toppings s"
    by (rule pending_ok_cong) (simp add: moved_def Let_def)
  moreover have "toppings_ok toppings (moved i next s) = toppings_ok toppings s"
    by (rule toppings_ok_cong) (simp add: moved_def Let_def)
  ultimately show ?thesis
    using inv cr ni nx
    by (simp add: invariant_def moved_registry_ok moved_done_log_ok moved_pairings_ok)
qed

lemma console_log_invariant:
  "\<not> is_Log_done_all e \<Longrightarrow> invariant toppings (console_log e s) = invariant toppings s"
  by (simp add: invariant_def console_log_def pairings_ok_def
      registry_ok_cong [of "s\<lparr>trace := trace s @ [e]\<rparr>" s]
      pending_ok_cong [of "s\<lparr>trace := trace s @ [e]\<rparr>" s]
      toppings_ok_cong [of "s\<lparr>trace := trace s @ [e]\<rparr>" s]
      done_log_ok_cong [of "s\<lparr>trace := trace s @ [e]\<rparr>" s])

lemma write_ready_invariant:
  assumes inv: "invariant toppings s"
    and free: "case x of Ord i \<Rightarrow> i \<notin> t_order ` set (timers s)
                       | Prep p \<Rightarrow> p \<notin> t_prep ` set (timers s)"
  shows "invariant toppings (write_ready x b s)"
proof -
  let ?s' = "write_ready x b s"
  have st: "stage (order_obj ?s' j) = stage (order_obj s j)"
    and tc: "toppingsCount (order_obj ?s' j) = toppingsCount (order_obj s j)" for j
    by (cases x; simp)+
  have same: "ordersSize ?s' = ordersSize s" "orders ?s' = orders s" "pending ?s' = pending s"
    "trace ?s' = trace s" "timers ?s' = timers s"
    by (cases x; simp)+
  have r: "registry_ok toppings ?s'"
    using inv registry_ok_cong [of ?s' s toppings] by (simp add: invariant_def same st)
  have p: "pending_ok toppings ?s'"
    using inv pending_ok_cong [of ?s' s toppings] by (simp add: invariant_def same)
  have t: "toppings_ok toppings ?s'"
    using inv toppings_ok_cong [of ?s' s toppings] by (simp add: invariant_def tc)
  have d: "done_log_ok toppings ?s'"
    using inv done_log_ok_cong [of ?s' s toppings] by (simp add: invariant_def same st)
  have ok: "pairings_ok toppings s" using inv by (simp add: invariant_def)
  have q: "pairings_ok toppings ?s'"
  proof (cases x)
    case (Ord i)
    then have "t_order t \<noteq> i" if "t \<in> set (timers s)" for t using that free by auto
    then show ?thesis using ok Ord by (simp add: pairings_ok_def)
  next
    case (Prep p)
    then have "t_prep t \<noteq> p" if "t \<in> set (timers s)" for t using that free by auto
    then show ?thesis using ok Prep by (simp add: pairings_ok_def)
  qed
  show ?thesis using r p t d q by (simp add: invariant_def)
qed

lemma enableReady_invariant:
  assumes "invariant toppings s"
    and "case x of Ord i \<Rightarrow> i \<notin> t_order ` set (timers s)
                 | Prep p \<Rightarrow> p \<notin> t_prep ` set (timers s)"
  shows "invariant toppings (enableReady x s)"
  unfolding enableReady_def
  using write_ready_invariant [OF assms] by (simp add: console_log_invariant)

lemma bucket_calls_created:
  assumes "registry_ok toppings s"
  shows "\<forall>c \<in> set (freeStageListener_calls p s). fst c \<in> created toppings"
proof (cases "orders s (getStage p)")
  case None
  then show ?thesis by (simp add: freeStageListener_calls_def)
next
  case (Some b)
  then have b: "b = {i \<in> created toppings. stage (order_obj s i) = getStage p}"
    using assms by (simp add: registry_ok_def)
  then have "finite b" using finite_created [of toppings] by simp
  then have "set (sorted_list_of_set b) = b" by simp
  then show ?thesis using Some b by (auto simp add: freeStageListener_calls_def)
qed

lemma emit_invariant:
  assumes inv: "invariant toppings s"
    and cr: "case x of Ord i \<Rightarrow> i \<in> created toppings | Prep p \<Rightarrow> True"
  shows "invariant toppings (emit x s)"
proof (cases x)
  case (Ord i)
  let ?s' = "console_log (Emit (Ord i)) s"
  have 1: "invariant toppings ?s'" using inv by (simp add: console_log_invariant)
  have 2: "\<forall>c \<in> set (freeOrderListener_calls i ?s'). fst c \<in> created toppings"
    using cr Ord by (auto simp add: freeOrderListener_calls_def split: option.splits)
  show ?thesis using resume_invariant [OF 1 2] Ord by (simp add: Let_def emit.simps)
next
  case (Prep p)
  let ?s' = "console_log (Emit (Prep p)) s"
  have 1: "invariant toppings ?s'" using inv by (simp add: console_log_invariant)
  then have "registry_ok toppings ?s'" by (simp add: invariant_def)
  then have 2: "\<forall>c \<in> set (freeStageListener_calls p ?s'). fst c \<in> created toppings"
    by (rule bucket_calls_created)
  show ?thesis using resume_invariant [OF 1 2] Prep by (simp add: Let_def emit.simps)
qed

text \<open>A busy worker that no timer holds stays so while listeners run.\<close>

lemma attemptToProcess_keeps_busy_prep:
  assumes "\<not> prep_ready s p" and "p \<notin> t_prep ` set (timers s)"
  shows "\<not> prep_ready (snd (attemptToProcess i q s)) p
         \<and> p \<notin> t_prep ` set (timers (snd (attemptToProcess i q s)))"
proof (cases "starts i q s")
  case True
  then have "q \<noteq> p" using assms by (auto simp add: starts_def)
  then show ?thesis using True assms by (simp add: attemptToProcess_start started_def)
next
  case False
  then show ?thesis using assms by (simp add: attemptToProcess_no_start)
qed

lemma resume_keeps_busy_prep:
  assumes "\<not> prep_ready s p" and "p \<notin> t_prep ` set (timers s)"
  shows "\<not> prep_ready (resume calls s) p \<and> p \<notin> t_prep ` set (timers (resume calls s))"
proof (cases calls)
  case Nil
  then show ?thesis using assms by simp
next
  case (Cons c rest)
  obtain i q where c: "c = (i, q)" by (cases c)
  show ?thesis
    unfolding Cons c resume_Cons
    using attemptToProcess_keeps_busy_prep [OF assms, of i q] by simp
qed

lemma emit_keeps_busy_prep:
  assumes "\<not> prep_ready s p" and "p \<notin> t_prep ` set (timers s)"
  shows "\<not> prep_ready (emit x s) p \<and> p \<notin> t_prep ` set (timers (emit x s))"
proof -
  have "\<not> prep_ready (console_log e s) p \<and> p \<notin> t_prep ` set (timers (console_log e s))" for e
    using assms by (simp add: console_log_def)
  then show ?thesis
    by (cases x) (simp_all add: Let_def resume_keeps_busy_prep emit.simps)
qed

lemma completion_invariant:
  assumes inv: "invariant toppings s" and t: "t \<in> set (timers s)"
  shows "\<exists>s'. completion (t_order t) (t_prep t)
                 (s\<lparr>timers := remove1 t (timers s), now := clock\<rparr>) = Inr s'
              \<and> invariant toppings s'"
proof -
  let ?i = "t_order t" and ?p = "t_prep t"
  let ?s0 = "s\<lparr>timers := remove1 t (timers s), now := clock\<rparr>"
  have ok: "pairings_ok toppings s" using inv by (simp add: invariant_def)
  have cr: "?i \<in> created toppings" and busy: "\<not> prep_ready s ?p"
    and stg: "stage (order_obj s ?i) = getStage ?p"
    using ok t by (auto simp add: pairings_ok_def)
  have ni: "?i \<notin> t_order ` set (remove1 t (timers s))"
    and np: "?p \<notin> t_prep ` set (remove1 t (timers s))"
    using ok t by (simp_all add: pairings_ok_def notin_map_remove1)
  have sub: "set (remove1 t (timers s)) \<subseteq> set (timers s)" by (rule set_remove1_subset)
  have ok0: "pairings_ok toppings ?s0"
    using ok sub by (auto simp add: pairings_ok_def distinct_map_remove1)
  have inv0: "invariant toppings ?s0"
    using inv ok0
    by (simp add: invariant_def registry_ok_cong [of ?s0 s] pending_ok_cong [of ?s0 s]
        toppings_ok_cong [of ?s0 s] done_log_ok_cong [of ?s0 s])
  obtain nxt where nx: "getNextStage (stage (order_obj ?s0 ?i)) = Inr nxt"
    using getNextStage_of_worker [of ?p] stg by auto
  let ?s1 = "moved ?i nxt ?s0"
  have ni0: "?i \<notin> t_order ` set (timers ?s0)" using ni by simp
  have inv1: "invariant toppings ?s1"
    using inv0 cr ni0 nx by (rule moved_invariant)
  have tm1: "timers ?s1 = remove1 t (timers s)" and pr1: "prep_ready ?s1 = prep_ready s"
    by (simp_all add: moved_def Let_def)
  let ?s2 = "enableReady (Ord ?i) ?s1"
  have inv2: "invariant toppings ?s2"
    using inv1 ni tm1 by (simp add: enableReady_invariant)
  have b2: "\<not> prep_ready ?s2 ?p" "?p \<notin> t_prep ` set (timers ?s2)"
    using busy np tm1 pr1 by (simp_all add: enableReady_def console_log_def)
  let ?s3 = "emit (Ord ?i) ?s2"
  have inv3: "invariant toppings ?s3"
    using inv2 cr by (simp add: emit_invariant)
  have b3: "?p \<notin> t_prep ` set (timers ?s3)"
    using emit_keeps_busy_prep [OF b2] by simp
  have inv4: "invariant toppings (enableReady (Prep ?p) ?s3)"
    using inv3 b3 by (simp add: enableReady_invariant)
  have inv5: "invariant toppings (PrepStage_postProcess ?p ?s3)"
    unfolding PrepStage_postProcess_def using inv4 by (simp add: emit_invariant)
  have reg0: "registry_ok toppings ?s0" using inv0 by (simp add: invariant_def)
  have "Order_postProcess ?i ?s0 = Inr ?s3"
    using reg0 cr nx by (rule Order_postProcess_moved)
  then have "completion ?i ?p ?s0 = Inr (PrepStage_postProcess ?p ?s3)"
    by (simp add: completion_def)
  then show ?thesis using inv5 by blast
qed

lemma onScriptStart_init_ok: "init_ok [] (onScriptStart empty_kitchen)"
  by (simp add: init_ok_def onScriptStart_def initPreps_def empty_kitchen_def start_buckets_def
      fun_eq_iff stage_values)

lemma initOrders_from_init_ok:
  "init_ok xs s \<Longrightarrow>
   \<exists>s'. initOrders_from (Suc (length xs)) cs s = Inr s' \<and> init_ok (xs @ cs) s'"
proof (induction cs arbitrary: xs s)
  case Nil
  then show ?case by simp
next
  case (Cons c cs)
  let ?k = "Suc (length xs)"
  let ?s1 = "s\<lparr>order_obj := (order_obj s)(?k := new_Order c s)\<rparr>"
  let ?s2 = "?s1\<lparr>orders := (orders ?s1)(DOUGHCHEF \<mapsto> insert ?k {1..length xs}),
                 ordersSize := Suc (ordersSize ?s1)\<rparr>"
  have b: "orders ?s1 DOUGHCHEF = Some {1..length xs}"
    using Cons.prems by (simp add: init_ok_def)
  have ins: "insert ?k {1..length xs} = {1..length (xs @ [c])}"
    by auto
  have "init_ok (xs @ [c]) ?s2"
    unfolding init_ok_def
  proof (intro conjI ballI)
    show "ordersSize ?s2 = length (xs @ [c])" using Cons.prems by (simp add: init_ok_def)
    show "orders ?s2 = start_buckets(DOUGHCHEF \<mapsto> {1..length (xs @ [c])})"
      using Cons.prems ins by (simp add: init_ok_def)
    show "timers ?s2 = []" "pending ?s2 = []" "trace ?s2 = []" "now ?s2 = 0"
      using Cons.prems by (simp_all add: init_ok_def)
    fix j assume j: "j \<in> {1..length (xs @ [c])}"
    show "order_obj ?s2 j = new_Order ((xs @ [c]) ! (j - 1)) ?s2"
    proof (cases "j = ?k")
      case True
      then show ?thesis by (simp add: new_Order_def nth_append)
    next
      case False
      then have "j \<in> {1..length xs}" using j by auto
      then show ?thesis
        using Cons.prems False by (auto simp add: init_ok_def new_Order_def nth_append)
    qed
  qed
  from Cons.IH [OF this]
  obtain s' where s': "initOrders_from (Suc (length (xs @ [c]))) cs ?s2 = Inr s'"
      "init_ok ((xs @ [c]) @ cs) s'" by blast
  have "initOrders_from ?k (c # cs) s = initOrders_from (Suc ?k) cs ?s2"
    using b by (simp add: Let_def new_Order_def)
  then show ?case using s' by simp
qed

lemma initOrders_init_ok:
  "\<exists>s. initOrders toppings (onScriptStart empty_kitchen) = Inr s \<and> init_ok toppings s"
  using initOrders_from_init_ok [OF onScriptStart_init_ok, of toppings]
  by (simp add: initOrders_def)

lemma init_ok_invariant:
  assumes "init_ok toppings s"
  shows "invariant toppings s"
proof -
  have ob: "orders s = start_buckets(DOUGHCHEF \<mapsto> {1..length toppings})"
    using assms by (simp add: init_ok_def)
  have st: "stage (order_obj s j) = DOUGHCHEF" if "j \<in> created toppings" for j
    using assms that by (simp add: init_ok_def created_atLeastAtMost new_Order_def)
  have r: "registry_ok toppings s"
    unfolding registry_ok_def
  proof (intro conjI ballI allI impI)
    show "ordersSize s = length toppings" using assms by (simp add: init_ok_def)
    show "orders s st \<noteq> None" if "st \<in> stages" for st
      using that by (auto simp add: ob stages_def start_buckets_def)
    show "stage (order_obj s i) \<in> stages" if "i \<in> created toppings" for i
      using st [OF that] by (simp add: stages_def)
    show "b = {i \<in> created toppings. stage (order_obj s i) = st}" if "orders s st = Some b" for st b
    proof (cases "st = DOUGHCHEF")
      case True
      then show ?thesis using that st by (auto simp add: ob created_atLeastAtMost)
    next
      case False
      then have "b = {}"
        using that by (auto simp add: ob start_buckets_def split: if_splits)
      then show ?thesis using False st by auto
    qed
  qed
  have "pairings_ok toppings s" "pending_ok toppings s" "done_log_ok toppings s"
    using assms by (simp_all add: init_ok_def pairings_ok_def pending_ok_def done_log_ok_def)
  moreover have "toppings_ok toppings s"
    using assms by (simp add: init_ok_def toppings_ok_def created_atLeastAtMost new_Order_def)
  ultimately show ?thesis using r by (simp add: invariant_def)
qed

lemma freeOrderListener_invariant:
  "invariant toppings s \<Longrightarrow> i \<in> created toppings \<Longrightarrow> invariant toppings (freeOrderListener i s)"
  unfolding freeOrderListener_def
  by (rule scan_invariant) (auto simp add: freeOrderListener_calls_def split: option.splits)

lemma freeStageListener_invariant:
  "invariant toppings s \<Longrightarrow> invariant toppings (freeStageListener p s)"
  unfolding freeStageListener_def
  by (rule scan_invariant, assumption, rule bucket_calls_created) (simp add: invariant_def)

lemma fold_freeOrderListener_invariant:
  "invariant toppings s \<Longrightarrow> set is \<subseteq> created toppings \<Longrightarrow>
   invariant toppings (fold freeOrderListener is s)"
  by (induction "is" arbitrary: s) (simp_all add: freeOrderListener_invariant)

lemma initOrderProcessing_invariant:
  assumes "invariant toppings s"
  shows "invariant toppings (initOrderProcessing s)"
proof (cases "orders s DOUGHCHEF")
  case None
  then show ?thesis using assms by (simp add: initOrderProcessing_def)
next
  case (Some b)
  then have b: "b = {i \<in> created toppings. stage (order_obj s i) = DOUGHCHEF}"
    using assms by (simp add: invariant_def registry_ok_def)
  then have "finite b" using finite_created [of toppings] by simp
  then have "set (sorted_list_of_set b) \<subseteq> created toppings" using b by auto
  then show ?thesis
    using assms Some by (simp add: initOrderProcessing_def fold_freeOrderListener_invariant)
qed

lemma script_start_total: "\<exists>s. script_start toppings = Inr s \<and> invariant toppings s"
proof -
  obtain s where s: "initOrders toppings (onScriptStart empty_kitchen) = Inr s" "init_ok toppings s"
    using initOrders_init_ok by blast
  then have "invariant toppings (initOrderProcessing s)"
    by (simp add: init_ok_invariant initOrderProcessing_invariant)
  then show ?thesis using s by (simp add: script_start_def)
qed

lemma step_invariant:
  assumes "step s s'" and "invariant toppings s"
  shows "invariant toppings s'"
  using assms
proof (cases rule: step.cases)
  case (microtask before calls after)
  have po: "pending_ok toppings s" using assms(2) by (simp add: invariant_def)
  have 1: "invariant toppings (s\<lparr>pending := before @ after\<rparr>)"
    using assms(2) po microtask(2)
    by (intro pending_update_invariant) (auto simp add: pending_ok_def)
  have 2: "\<forall>c \<in> set calls. fst c \<in> created toppings"
    using po microtask(2) by (auto simp add: pending_ok_def)
  show ?thesis unfolding microtask(1) using 1 2 by (rule resume_invariant)
next
  case (fire t clock)
  then show ?thesis using completion_invariant [OF assms(2) fire(2), of clock] by auto
qed

lemma reachable_invariant: "reachable toppings s \<Longrightarrow> invariant toppings s"
proof (induction rule: reachable.induct)
  case (at_start s)
  then show ?case using script_start_total [of toppings] by auto
next
  case (after_step s s')
  then show ?case using step_invariant by blast
qed

text \<open>In a reachable state no callback of a pending timer throws.\<close>

lemma callback_never_throws:
  "reachable toppings s \<Longrightarrow> t \<in> set (timers s) \<Longrightarrow>
   \<exists>s'. completion (t_order t) (t_prep t)
          (s\<lparr>timers := remove1 t (timers s), now := clock\<rparr>) = Inr s'"
  using completion_invariant reachable_invariant by blast

lemma attemptToProcess_static:
  "stage (order_obj (snd (attemptToProcess i p s)) j) = stage (order_obj s j)"
  "toppingsCount (order_obj (snd (attemptToProcess i p s)) j) = toppingsCount (order_obj s j)"
  by (cases "starts i p s";
      simp add: attemptToProcess_no_start attemptToProcess_start started_def)+

lemma resume_static:
  "stage (order_obj (resume calls s) j) = stage (order_obj s j)"
  "toppingsCount (order_obj (resume calls s) j) = toppingsCount (order_obj s j)"
proof -
  show "stage (order_obj (resume calls s) j) = stage (order_obj s j)"
  proof (cases calls)
    case Nil
    then show ?thesis by simp
  next
    case (Cons c rest)
    obtain i p where "c = (i, p)" by (cases c)
    then show ?thesis unfolding Cons by (simp add: resume_Cons attemptToProcess_static del: resume.simps)
  qed
  show "toppingsCount (order_obj (resume calls s) j) = toppingsCount (order_obj s j)"
  proof (cases calls)
    case Nil
    then show ?thesis by simp
  next
    case (Cons c rest)
    obtain i p where "c = (i, p)" by (cases c)
    then show ?thesis unfolding Cons by (simp add: resume_Cons attemptToProcess_static del: resume.simps)
  qed
qed

lemma scan_static:
  "stage (order_obj (scan calls s) j) = stage (order_obj s j)
   \<and> toppingsCount (order_obj (scan calls s) j) = toppingsCount (order_obj s j)"
proof (induction calls arbitrary: s)
  case Nil
  then show ?case by simp
next
  case (Cons c rest)
  obtain i p where c: "c = (i, p)" by (cases c)
  show ?case unfolding c scan_Cons using Cons [of "snd (attemptToProcess i p s)"]
    by (simp add: attemptToProcess_static)
qed

lemma enableReady_static:
  "stage (order_obj (enableReady x s) j) = stage (order_obj s j)"
  "toppingsCount (order_obj (enableReady x s) j) = toppingsCount (order_obj s j)"
  by (cases x; simp add: enableReady_def console_log_def)+

lemma emit_static:
  "stage (order_obj (emit x s) j) = stage (order_obj s j)"
  "toppingsCount (order_obj (emit x s) j) = toppingsCount (order_obj s j)"
  by (cases x; simp add: emit.simps Let_def resume_static console_log_def)+

lemma moved_static:
  "stage (order_obj (moved i next s) j) = (if j = i then next else stage (order_obj s j))"
  "toppingsCount (order_obj (moved i next s) j) = toppingsCount (order_obj s j)"
  by (simp_all add: moved_def Let_def)

lemma completion_static:
  assumes inv: "invariant toppings s" and t: "t \<in> set (timers s)"
    and c: "completion (t_order t) (t_prep t)
              (s\<lparr>timers := remove1 t (timers s), now := clock\<rparr>) = Inr s'"
  shows "getNextStage (stage (order_obj s (t_order t)))
           = Inr (stage (order_obj s' (t_order t)))"
    and "j \<noteq> t_order t \<Longrightarrow> stage (order_obj s' j) = stage (order_obj s j)"
    and "toppingsCount (order_obj s' j) = toppingsCount (order_obj s j)"
proof -
  let ?i = "t_order t" and ?p = "t_prep t"
  let ?s0 = "s\<lparr>timers := remove1 t (timers s), now := clock\<rparr>"
  have ok: "pairings_ok toppings s" and reg: "registry_ok toppings s"
    using inv by (simp_all add: invariant_def)
  have cr: "?i \<in> created toppings" and stg: "stage (order_obj s ?i) = getStage ?p"
    using ok t by (auto simp add: pairings_ok_def)
  obtain nxt where nx: "getNextStage (stage (order_obj ?s0 ?i)) = Inr nxt"
    using getNextStage_of_worker [of ?p] stg by auto
  have reg0: "registry_ok toppings ?s0"
    using reg registry_ok_cong [of ?s0 s toppings] by simp
  have "Order_postProcess ?i ?s0 = Inr (emit (Ord ?i) (enableReady (Ord ?i) (moved ?i nxt ?s0)))"
    using reg0 cr nx by (rule Order_postProcess_moved)
  then have s': "s' = PrepStage_postProcess ?p (emit (Ord ?i) (enableReady (Ord ?i) (moved ?i nxt ?s0)))"
    using c by (simp add: completion_def)
  have st: "stage (order_obj s' k) = (if k = ?i then nxt else stage (order_obj s k))" for k
    unfolding s' PrepStage_postProcess_def
    by (simp add: emit_static enableReady_static moved_static)
  show "getNextStage (stage (order_obj s ?i)) = Inr (stage (order_obj s' ?i))"
    using nx st by simp
  show "j \<noteq> ?i \<Longrightarrow> stage (order_obj s' j) = stage (order_obj s j)"
    using st by simp
  show "toppingsCount (order_obj s' j) = toppingsCount (order_obj s j)"
    unfolding s' PrepStage_postProcess_def
    by (simp add: emit_static enableReady_static moved_static)
qed

lemma step_stuck_ok:
  assumes st: "step s s'" and inv: "invariant toppings s" and ok: "stuck_ok toppings s"
  shows "stuck_ok toppings s'"
  using st
proof (cases rule: step.cases)
  case (microtask before calls after)
  have "stage (order_obj s' j) = stage (order_obj s j)
        \<and> toppingsCount (order_obj s' j) = toppingsCount (order_obj s j)" for j
    unfolding microtask(1) by (simp add: resume_static)
  then show ?thesis using ok by (simp add: stuck_ok_def)
next
  case (fire t)
  note cs = completion_static [OF inv fire(2) fire(6)]
  have pk: "pairings_ok toppings s" using inv by (simp add: invariant_def)
  have tm: "calculateProcessingTime (t_prep t) (order_obj s (t_order t)) \<noteq> 0"
    and sg: "stage (order_obj s (t_order t)) = getStage (t_prep t)"
    using pk fire(2) by (auto simp add: pairings_ok_def)
  show ?thesis
    unfolding stuck_ok_def
  proof (intro ballI impI)
    fix i assume i: "i \<in> created toppings" and z: "toppingsCount (order_obj s' i) = 0"
    then have z0: "toppingsCount (order_obj s i) = 0" using cs(3) by simp
    then have old: "stage (order_obj s i) = DOUGHCHEF \<or> stage (order_obj s i) = TOPPINGCHEF"
      using ok i by (simp add: stuck_ok_def)
    show "stage (order_obj s' i) = DOUGHCHEF \<or> stage (order_obj s' i) = TOPPINGCHEF"
    proof (cases "i = t_order t")
      case False
      then show ?thesis using old cs(2) by simp
    next
      case True
      have "fst (t_prep t) \<noteq> ToppingChef"
        using tm z0 True by (simp add: calculateProcessingTime_zero)
      then have "stage (order_obj s i) \<noteq> TOPPINGCHEF"
        using sg True by (simp add: getStage_class)
      then have "stage (order_obj s i) = DOUGHCHEF" using old by simp
      then have "getNextStage DOUGHCHEF = Inr (stage (order_obj s' i))"
        using cs(1) True by simp
      then show ?thesis by (simp add: getNextStage_stages)
    qed
  qed
qed

lemma start_stuck_ok:
  assumes "script_start toppings = Inr s"
  shows "stuck_ok toppings s"
proof -
  obtain s0 where s0: "initOrders toppings (onScriptStart empty_kitchen) = Inr s0"
    "init_ok toppings s0"
    using initOrders_init_ok by blast
  then have s: "s = initOrderProcessing s0" using assms by (simp add: script_start_def)
  have "stage (order_obj (fold freeOrderListener is s1) j) = stage (order_obj s1 j)" for "is" s1 j
    by (induction "is" arbitrary: s1) (simp_all add: freeOrderListener_def scan_static)
  then have "stage (order_obj s j) = stage (order_obj s0 j)" for j
    unfolding s by (simp add: initOrderProcessing_def split: option.splits)
  moreover have "stage (order_obj s0 j) = DOUGHCHEF" if "j \<in> created toppings" for j
    using s0(2) that by (simp add: init_ok_def created_atLeastAtMost new_Order_def)
  ultimately show ?thesis by (simp add: stuck_ok_def)
qed

lemma reachable_stuck_ok: "reachable toppings s \<Longrightarrow> stuck_ok toppings s"
proof (induction rule: reachable.induct)
  case (at_start s)
  then show ?case by (rule start_stuck_ok)
next
  case (after_step s s')
  then show ?case using step_stuck_ok reachable_invariant by blast
qed

lemma zero_toppings_never_done:
  assumes r: "reachable toppings s" and z: "i \<in> created toppings" "toppings ! (i - 1) = 0"
  shows "stage (order_obj s i) \<noteq> DONE \<and> filter is_Log_done_all (trace s) = []"
proof -
  have inv: "invariant toppings s" using r by (rule reachable_invariant)
  then have "toppingsCount (order_obj s i) = 0"
    using z by (simp add: invariant_def toppings_ok_def)
  then have nd: "stage (order_obj s i) \<noteq> DONE"
    using reachable_stuck_ok [OF r] z(1) by (auto simp add: stuck_ok_def stage_values)
  moreover have "done_log_ok toppings s" using inv by (simp add: invariant_def)
  ultimately show ?thesis using no_done_all_before z(1) by blast
qed

lemma run_late_unfold:
  "0 < n \<Longrightarrow> run_late n late s =
     (case pending s of
        calls # after \<Rightarrow> run_late (n - 1) late (resume calls (s\<lparr>pending := after\<rparr>))
      | [] \<Rightarrow>
         (case earliest (timers s) of
            None \<Rightarrow> Inr s
          | Some t \<Rightarrow>
              (case completion (t_order t) (t_prep t)
                      (s\<lparr>timers := remove1 t (timers s),
                         now := max (now s) (due t + (case late of [] \<Rightarrow> 0 | l # ls \<Rightarrow> l))\<rparr>) of
                 Inl e \<Rightarrow> Inl e
               | Inr s' \<Rightarrow> run_late (n - 1) (tl late) s')))"
proof -
  assume "0 < n"
  then have "n = Suc (n - 1)" by simp
  then have "run_late n late s = run_late (Suc (n - 1)) late s" by simp
  then show ?thesis by (simp only: run_late.simps)
qed

lemma attemptToProcess_eval:
  "attemptToProcess i p s = (if starts i p s then (JUndefined, started i p s) else (JBoolean False, s))"
  by (simp add: attemptToProcess_start attemptToProcess_no_start)

section \<open>Runs, and evaluation at given inputs\<close>

lemmas eval_defs = script_start_def initOrders_def onScriptStart_def initPreps_def
  empty_kitchen_def new_Order_def initOrderProcessing_def freeOrderListener_def
  freeStageListener_def
  freeOrderListener_calls_def freeStageListener_calls_def attemptToProcess_eval
  starts_def started_def scan_Cons resume_Cons
  console_log_def enableReady_def
  completion_def Order_postProcess_def PrepStage_postProcess_def moveOrder_def
  logIfDoneProcessing_def logIfDoneProcessingAll_def START_TIME_def
  calculateProcessingTime_topping calculateProcessingTime_other
  doughChefConfig_def toppingChefConfig_def ovenConfig_def waiterConfig_def
  new_PrepConfig_def getStage_def stage_values getNextStage_def StageTypes_def
  emit.simps Let_def no_order_def upt_conv_Cons run_script_def run_script_late_def run_def
  run_late_unfold logs_def

lemma earliest_Some:
  "earliest ts = Some t \<Longrightarrow> t \<in> set ts \<and> (\<forall>u \<in> set ts. due t \<le> due u)"
proof (induction ts arbitrary: t)
  case Nil
  then show ?case by simp
next
  case (Cons a ts)
  show ?case
  proof (cases "earliest ts")
    case None
    then have "ts = []" by (cases ts) (auto split: option.splits if_splits)
    then show ?thesis using Cons.prems None by simp
  next
    case (Some u)
    then have u: "u \<in> set ts" "\<forall>v \<in> set ts. due u \<le> due v" using Cons.IH by auto
    show ?thesis
    proof (cases "due u < due a")
      case True
      then have "t = u" using Cons.prems Some by simp
      then show ?thesis using u True by auto
    next
      case False
      then have "t = a" using Cons.prems Some by simp
      then show ?thesis using u False by fastforce
    qed
  qed
qed

lemma run_late_reachable:
  "reachable toppings s \<Longrightarrow> \<exists>s'. run_late n late s = Inr s' \<and> reachable toppings s'"
proof (induction n arbitrary: s late)
  case 0
  then show ?case by simp
next
  case (Suc n)
  show ?case
  proof (cases "pending s")
    case (Cons calls after)
    then have "pending s = [] @ calls # after" by simp
    then have "step s (resume calls (s\<lparr>pending := [] @ after\<rparr>))" by (rule step.microtask)
    then have "reachable toppings (resume calls (s\<lparr>pending := after\<rparr>))"
      using Suc.prems reachable.after_step by fastforce
    then show ?thesis using Suc.IH Cons by simp
  next
    case Nil
    show ?thesis
    proof (cases "earliest (timers s)")
      case None
      then show ?thesis using Nil Suc.prems by simp
    next
      case (Some t)
      note e = earliest_Some [OF Some]
      let ?clock = "max (now s) (due t + (case late of [] \<Rightarrow> 0 | l # ls \<Rightarrow> l))"
      obtain s1 where s1: "completion (t_order t) (t_prep t)
            (s\<lparr>timers := remove1 t (timers s), now := ?clock\<rparr>) = Inr s1"
        using completion_invariant [OF reachable_invariant [OF Suc.prems]] e by blast
      have "due t \<le> ?clock" "now s \<le> ?clock" by simp_all
      then have "step s s1" using Nil e s1 step.fire by blast
      then have "reachable toppings s1" using Suc.prems reachable.after_step by blast
      then show ?thesis using Suc.IH Nil Some s1 by simp
    qed
  qed
qed

lemma run_reachable:
  "reachable toppings s \<Longrightarrow> run n s = Inr s' \<Longrightarrow> reachable toppings s'"
  using run_late_reachable [of toppings s n "[]"] by (simp add: run_def)

lemma run_total: "reachable toppings s \<Longrightarrow> \<exists>s'. run n s = Inr s'"
  using run_late_reachable [of toppings s n "[]"] by (auto simp add: run_def)


lemma reachable_start: "reachable toppings (projr (script_start toppings))"
proof -
  obtain s where "script_start toppings = Inr s" using script_start_total by blast
  then show ?thesis by (simp add: reachable.at_start)
qed

lemma reachable_run_script: "reachable toppings (projr (run_script n toppings))"
proof -
  obtain s where s: "script_start toppings = Inr s" using script_start_total by blast
  then have r: "reachable toppings s" by (rule reachable.at_start)
  then obtain s' where s': "run n s = Inr s'" using run_total by blast
  then have "reachable toppings s'" using r run_reachable by blast
  then show ?thesis using s s' by (simp add: run_script_def)
qed

lemma start_timers_3_0_5:
  "timers (projr (script_start [3, 0, 5]))
   = [\<lparr>due = 7000, t_order = 1, t_prep = (DoughChef, 1)\<rparr>,
      \<lparr>due = 7000, t_order = 2, t_prep = (DoughChef, 2)\<rparr>]"
  by (simp add: eval_defs del: scan.simps(2) resume.simps(2) run_late.simps(2))

section \<open>Mutual exclusion of pairings\<close>

lemma attemptToProcess_busy:
  "\<not> isReady (Ord i) s \<or> \<not> isReady (Prep p) s \<Longrightarrow> attemptToProcess i p s = (JBoolean False, s)"
  by (rule attemptToProcess_no_start) (auto simp add: starts_def)

lemma attemptToProcess_never_frees:
  "isReady x (snd (attemptToProcess i p s)) \<Longrightarrow> isReady x s"
  by (cases "starts i p s"; cases x)
    (auto simp add: attemptToProcess_no_start attemptToProcess_start started_def split: if_splits)

text \<open>
  C1.  In every reachable state no order and no worker is in two pending pairings
  (a pairing lasts from \<^verbatim>\<open>setTimeout\<close> until its timer fires), both parties of a
  pending pairing are marked busy, a call of \<^verbatim>\<open>attemptToProcess\<close> with a busy order
  or a busy worker starts nothing and changes nothing, and no call of
  \<^verbatim>\<open>attemptToProcess\<close> marks a party free.
\<close>

theorem mutual_exclusion:
  assumes "reachable toppings s"
  shows "distinct (map t_order (timers s)) \<and> distinct (map t_prep (timers s))
     \<and> (\<forall>t \<in> set (timers s). \<not> isReady (Ord (t_order t)) s \<and> \<not> isReady (Prep (t_prep t)) s)
     \<and> (\<forall>i p. \<not> isReady (Ord i) s \<or> \<not> isReady (Prep p) s
            \<longrightarrow> attemptToProcess i p s = (JBoolean False, s))
     \<and> (\<forall>i p x. isReady x (snd (attemptToProcess i p s)) \<longrightarrow> isReady x s)"
proof -
  have "pairings_ok toppings s"
    using reachable_invariant [OF assms] by (simp add: invariant_def)
  then have "distinct (map t_order (timers s)) \<and> distinct (map t_prep (timers s))
     \<and> (\<forall>t \<in> set (timers s). \<not> isReady (Ord (t_order t)) s \<and> \<not> isReady (Prep (t_prep t)) s)"
    by (simp add: pairings_ok_def)
  then show ?thesis
    using attemptToProcess_busy attemptToProcess_never_frees by blast
qed

theorem mutual_exclusion_witness:
  "reachable [3, 0, 5] (projr (script_start [3, 0, 5]))
   \<and> map t_order (timers (projr (script_start [3, 0, 5]))) = [1, 2]
   \<and> map t_prep (timers (projr (script_start [3, 0, 5]))) = [(DoughChef, 1), (DoughChef, 2)]
   \<and> \<not> isReady (Ord 1) (projr (script_start [3, 0, 5]))
   \<and> \<not> isReady (Prep (DoughChef, 2)) (projr (script_start [3, 0, 5]))
   \<and> attemptToProcess 1 (DoughChef, 2) (projr (script_start [3, 0, 5]))
       = (JBoolean False, projr (script_start [3, 0, 5]))"
  using mutual_exclusion [OF reachable_start, of "[3, 0, 5]"] reachable_start [of "[3, 0, 5]"]
  by (simp add: start_timers_3_0_5)

section \<open>Consistency of the registry\<close>

lemma moveOrder_effect:
  assumes "moveOrder i prior s = Inr s'"
  shows "\<exists>b b'. orders s prior = Some b
           \<and> ((orders s)(prior \<mapsto> b - {i})) (stage (order_obj s i)) = Some b'
           \<and> orders s' = (orders s)(prior \<mapsto> b - {i}, stage (order_obj s i) \<mapsto> insert i b')
           \<and> order_obj s' = order_obj s"
proof (cases "orders s prior")
  case None
  then show ?thesis using assms by (simp add: moveOrder_def)
next
  case (Some b)
  show ?thesis
  proof (cases "((orders s)(prior \<mapsto> b - {i})) (stage (order_obj s i))")
    case None
    then show ?thesis using assms Some by (simp add: moveOrder_def Let_def)
  next
    case b': (Some b')
    let ?s2 = "s\<lparr>orders := (orders s)(prior \<mapsto> b - {i}, stage (order_obj s i) \<mapsto> insert i b')\<rparr>"
    have "logIfDoneProcessingAll ?s2 = Inr s'"
      using assms Some b' by (simp add: moveOrder_def Let_def)
    then have "orders s' = orders ?s2 \<and> order_obj s' = order_obj ?s2"
      by (auto simp add: logIfDoneProcessingAll_def console_log_def split: option.splits if_splits)
    then show ?thesis using Some b' by simp
  qed
qed

lemma onScriptStart_DONE: "orders (onScriptStart empty_kitchen) DONE = Some {}"
  by (simp add: onScriptStart_def initPreps_def empty_kitchen_def)

text \<open>
  C3.  In every reachable state each created order is in the bucket of its stage and
  in no other bucket.  The bucket of the stage Done exists once \<^verbatim>\<open>onScriptStart\<close> has
  run and holds every order whose stage is Done.  \<^verbatim>\<open>moveOrder\<close> takes the order out
  of the bucket of the prior stage and puts it into the bucket of its stage; it is one
  function, run inside the timer's callback, which is one step of the event loop.
\<close>

theorem registry_consistency:
  assumes "reachable toppings s"
  shows "(\<forall>i \<in> created toppings. \<forall>st.
            (\<exists>b. orders s st = Some b \<and> i \<in> b) \<longleftrightarrow> st = stage (order_obj s i))
     \<and> orders (onScriptStart empty_kitchen) DONE = Some {}
     \<and> (\<exists>b. orders s DONE = Some b
              \<and> (\<forall>i \<in> created toppings. stage (order_obj s i) = DONE \<longrightarrow> i \<in> b))
     \<and> (\<forall>i prior s'. moveOrder i prior s = Inr s' \<longrightarrow>
           (\<exists>b b'. orders s prior = Some b
              \<and> ((orders s)(prior \<mapsto> b - {i})) (stage (order_obj s i)) = Some b'
              \<and> orders s' = (orders s)(prior \<mapsto> b - {i}, stage (order_obj s i) \<mapsto> insert i b')
              \<and> order_obj s' = order_obj s))"
proof -
  have reg: "registry_ok toppings s"
    using reachable_invariant [OF assms] by (simp add: invariant_def)
  have bucket: "orders s st = Some {i \<in> created toppings. stage (order_obj s i) = st}"
    if "st \<in> stages" for st
    using reg that by (auto simp add: registry_ok_def)
  have 1: "(\<exists>b. orders s st = Some b \<and> i \<in> b) \<longleftrightarrow> st = stage (order_obj s i)"
    if i: "i \<in> created toppings" for i st
  proof
    assume "\<exists>b. orders s st = Some b \<and> i \<in> b"
    then obtain b where b: "orders s st = Some b" "i \<in> b" by blast
    then have "b = {i \<in> created toppings. stage (order_obj s i) = st}"
      using reg by (simp add: registry_ok_def)
    then show "st = stage (order_obj s i)" using b by simp
  next
    assume st: "st = stage (order_obj s i)"
    then have "st \<in> stages" using reg i by (simp add: registry_ok_def)
    then show "\<exists>b. orders s st = Some b \<and> i \<in> b" using bucket st i by simp
  qed
  have "DONE \<in> stages" by (simp add: stages_def)
  then have 2: "\<exists>b. orders s DONE = Some b
              \<and> (\<forall>i \<in> created toppings. stage (order_obj s i) = DONE \<longrightarrow> i \<in> b)"
    using bucket by simp
  show ?thesis using 1 2 onScriptStart_DONE moveOrder_effect by blast
qed

lemma run_3_4:
  "stage (order_obj (projr (run_script 3 [4])) (Suc 0)) = TOPPINGCHEF"
  "orders (projr (run_script 3 [4])) TOPPINGCHEF = Some {Suc 0}"
  "orders (projr (run_script 3 [4])) DOUGHCHEF = Some {}"
  by (simp_all add: eval_defs del: scan.simps(2) resume.simps(2) run_late.simps(2))

theorem registry_consistency_witness:
  "reachable [4] (projr (run_script 3 [4])) \<and> 1 \<in> created [4]
   \<and> stage (order_obj (projr (run_script 3 [4])) 1) = TOPPINGCHEF
   \<and> (\<exists>b. orders (projr (run_script 3 [4])) TOPPINGCHEF = Some b \<and> 1 \<in> b)
   \<and> \<not> (\<exists>b. orders (projr (run_script 3 [4])) DOUGHCHEF = Some b \<and> 1 \<in> b)"
  using registry_consistency [OF reachable_run_script [of "[4]" 3]] reachable_run_script [of "[4]" 3]
  by (simp add: run_3_4 created_def)

section \<open>The line that all orders are done\<close>

lemma done_signal_at_most_once:
  assumes "reachable toppings s"
  shows "length (filter is_Log_done_all (trace s)) \<le> 1
     \<and> ((\<exists>e \<in> set (trace s). is_Log_done_all e) \<longrightarrow>
          (\<forall>i \<in> created toppings. stage (order_obj s i) = DONE) \<and> timers s = [])"
proof -
  have inv: "invariant toppings s" using assms by (rule reachable_invariant)
  then have d: "done_log_ok toppings s" and p: "pairings_ok toppings s"
    by (simp_all add: invariant_def)
  have "timers s = []" if "\<forall>i \<in> created toppings. stage (order_obj s i) = DONE"
  proof (cases "timers s")
    case Nil
    then show ?thesis .
  next
    case (Cons t ts)
    then have "t_order t \<in> created toppings"
      "stage (order_obj s (t_order t)) = getStage (t_prep t)"
      using p by (simp_all add: pairings_ok_def)
    then show ?thesis using that getStage_class(5) by metis
  qed
  then show ?thesis using d by (auto simp add: done_log_ok_def)
qed

lemma no_step_when_idle: "timers s = [] \<Longrightarrow> pending s = [] \<Longrightarrow> \<not> step s s'"
  by (auto elim: step.cases)

lemma run_20_0:
  "timers (projr (run_script 20 [0])) = []"
  "pending (projr (run_script 20 [0])) = []"
  "logs (trace (projr (run_script 20 [0]))) = [Log_processing 1 (DoughChef, 1) 7000]"
  "stage (order_obj (projr (run_script 20 [0])) (Suc 0)) = TOPPINGCHEF"
  "ready (order_obj (projr (run_script 20 [0])) (Suc 0))"
  by (simp_all add: eval_defs del: scan.simps(2) resume.simps(2) run_late.simps(2))

text \<open>
  C4.  The run of one order with no toppings.  The dough stage is logged and its timer
  fires; then \<^verbatim>\<open>attemptToProcess\<close> returns at \<^verbatim>\<open>if (!time) return false\<close> for each
  of the three topping chefs.  The state that is reached has no timer and no suspended
  listener, so the run is over: the order is free, its stage is still the topping
  stage, and no line of \<^verbatim>\<open>logIfDoneProcessingAll\<close> was written.
\<close>

theorem zero_toppings_run_never_completes:
  "reachable [0] (projr (run_script 20 [0]))
   \<and> timers (projr (run_script 20 [0])) = []
   \<and> pending (projr (run_script 20 [0])) = []
   \<and> logs (trace (projr (run_script 20 [0]))) = [Log_processing 1 (DoughChef, 1) 7000]
   \<and> stage (order_obj (projr (run_script 20 [0])) 1) = TOPPINGCHEF
   \<and> isReady (Ord 1) (projr (run_script 20 [0]))"
  using reachable_run_script [of "[0]" 20] by (simp add: run_20_0)

section \<open>One pairing for each run of a listener\<close>

lemma scan_busy_prep:
  "\<not> isReady (Prep p) s \<Longrightarrow> \<forall>c \<in> set calls. snd c = p \<Longrightarrow> scan calls s = s"
proof (induction calls)
  case Nil
  then show ?case by simp
next
  case (Cons c rest)
  obtain i where c: "c = (i, p)" using Cons.prems(2) by (cases c) auto
  show ?case
    unfolding c scan_Cons using Cons by (simp add: attemptToProcess_busy)
qed

lemma scan_busy_order:
  "\<not> isReady (Ord i) s \<Longrightarrow> \<forall>c \<in> set calls. fst c = i \<Longrightarrow> scan calls s = s"
proof (induction calls)
  case Nil
  then show ?case by simp
next
  case (Cons c rest)
  obtain p where c: "c = (i, p)" using Cons.prems(2) by (cases c) auto
  show ?case
    unfolding c scan_Cons using Cons by (simp add: attemptToProcess_busy)
qed

lemma scan_one_prep:
  "\<forall>c \<in> set calls. snd c = p \<Longrightarrow>
   timers (scan calls s) = timers s
   \<or> (\<exists>t. timers (scan calls s) = timers s @ [t] \<and> t_prep t = p)"
proof (induction calls arbitrary: s)
  case Nil
  then show ?case by simp
next
  case (Cons c rest)
  obtain i where c: "c = (i, p)" using Cons.prems by (cases c) auto
  show ?case
  proof (cases "starts i p s")
    case True
    have "\<not> isReady (Prep p) (started i p s)" by (simp add: started_def)
    then have "scan rest (started i p s) = started i p s"
      using Cons.prems by (simp add: scan_busy_prep)
    then show ?thesis
      unfolding c scan_Cons using True by (simp add: attemptToProcess_start started_def)
  next
    case False
    then show ?thesis
      unfolding c scan_Cons using Cons by (simp add: attemptToProcess_no_start)
  qed
qed

lemma scan_one_order:
  "\<forall>c \<in> set calls. fst c = i \<Longrightarrow>
   timers (scan calls s) = timers s
   \<or> (\<exists>t. timers (scan calls s) = timers s @ [t] \<and> t_order t = i)"
proof (induction calls arbitrary: s)
  case Nil
  then show ?case by simp
next
  case (Cons c rest)
  obtain p where c: "c = (i, p)" using Cons.prems by (cases c) auto
  show ?case
  proof (cases "starts i p s")
    case True
    have "\<not> isReady (Ord i) (started i p s)" by (simp add: started_def)
    then have "scan rest (started i p s) = started i p s"
      using Cons.prems by (simp add: scan_busy_order)
    then show ?thesis
      unfolding c scan_Cons using True by (simp add: attemptToProcess_start started_def)
  next
    case False
    then show ?thesis
      unfolding c scan_Cons using Cons by (simp add: attemptToProcess_no_start)
  qed
qed

lemma attemptToProcess_busy_party:
  assumes "\<not> isReady x s"
  shows "\<not> isReady x (snd (attemptToProcess i p s))
     \<and> filter (\<lambda>t. Ord (t_order t) = x \<or> Prep (t_prep t) = x) (timers (snd (attemptToProcess i p s)))
       = filter (\<lambda>t. Ord (t_order t) = x \<or> Prep (t_prep t) = x) (timers s)"
proof (cases "starts i p s")
  case True
  then have "Ord i \<noteq> x" "Prep p \<noteq> x" using assms by (auto simp add: starts_def)
  then show ?thesis
    using True assms by (cases x) (auto simp add: attemptToProcess_start started_def)
next
  case False
  then show ?thesis using assms by (simp add: attemptToProcess_no_start)
qed

lemma scan_busy_party:
  "\<not> isReady x s \<Longrightarrow>
   \<not> isReady x (scan calls s)
   \<and> filter (\<lambda>t. Ord (t_order t) = x \<or> Prep (t_prep t) = x) (timers (scan calls s))
     = filter (\<lambda>t. Ord (t_order t) = x \<or> Prep (t_prep t) = x) (timers s)"
proof (induction calls arbitrary: s)
  case Nil
  then show ?case by simp
next
  case (Cons c rest)
  obtain i p where c: "c = (i, p)" by (cases c)
  show ?case
    unfolding c scan_Cons
    using Cons.IH [of "snd (attemptToProcess i p s)"] attemptToProcess_busy_party [OF Cons.prems, of i p]
    by simp
qed

text \<open>While a listener loop is suspended only such loops take steps, and they free nobody.\<close>

lemma microtask_keeps_busy:
  assumes st: "step s s'" and pe: "pending s \<noteq> []" and busy: "\<not> isReady x s"
  shows "\<not> isReady x s'
     \<and> filter (\<lambda>t. Ord (t_order t) = x \<or> Prep (t_prep t) = x) (timers s')
       = filter (\<lambda>t. Ord (t_order t) = x \<or> Prep (t_prep t) = x) (timers s)"
  using st
proof (cases rule: step.cases)
  case (microtask before calls after)
  let ?s = "s\<lparr>pending := before @ after\<rparr>"
  have b: "\<not> isReady x ?s" using busy by (cases x) simp_all
  show ?thesis
  proof (cases calls)
    case Nil
    then show ?thesis using microtask b by simp
  next
    case (Cons c rest)
    obtain i p where c: "c = (i, p)" by (cases c)
    have r: "isReady x (u\<lparr>pending := q\<rparr>) = isReady x u" for u q
      by (cases x) simp_all
    show ?thesis
      unfolding microtask(1) Cons c resume_Cons
      using attemptToProcess_busy_party [OF b, of i p] by (simp add: r)
  qed
next
  case (fire t)
  then show ?thesis using pe by simp
qed

text \<open>
  C8.  One run of \<^verbatim>\<open>freeStageListener\<close>, and one of \<^verbatim>\<open>freeOrderListener\<close>, sets at
  most one timer, and it is a timer of the worker, respectively of the order, the
  listener was called for.  Once a party is busy, no sequence of calls of
  \<^verbatim>\<open>attemptToProcess\<close> (the rest of the same loop, alone or interleaved with the calls
  of other listeners) frees it or sets another timer for it.
\<close>

theorem one_pairing_per_listener:
  "(timers (freeStageListener p s) = timers s
      \<or> (\<exists>t. timers (freeStageListener p s) = timers s @ [t] \<and> t_prep t = p))
   \<and> (timers (freeOrderListener i s) = timers s
      \<or> (\<exists>t. timers (freeOrderListener i s) = timers s @ [t] \<and> t_order t = i))
   \<and> (\<forall>x calls. \<not> isReady x s \<longrightarrow>
         \<not> isReady x (scan calls s)
         \<and> filter (\<lambda>t. Ord (t_order t) = x \<or> Prep (t_prep t) = x) (timers (scan calls s))
           = filter (\<lambda>t. Ord (t_order t) = x \<or> Prep (t_prep t) = x) (timers s))"
proof -
  have 1: "\<forall>c \<in> set (freeStageListener_calls p s). snd c = p"
    by (auto simp add: freeStageListener_calls_def split: option.splits)
  have 2: "\<forall>c \<in> set (freeOrderListener_calls i s). fst c = i"
    by (auto simp add: freeOrderListener_calls_def split: option.splits)
  show ?thesis
    unfolding freeStageListener_def freeOrderListener_def
    using scan_one_prep [OF 1] scan_one_order [OF 2] scan_busy_party by blast
qed

lemma fresh_3_0_5:
  "timers (fresh_kitchen [3, 0, 5]) = []"
  "timers (freeStageListener (DoughChef, 1) (fresh_kitchen [3, 0, 5]))
     = [\<lparr>due = 7000, t_order = 1, t_prep = (DoughChef, 1)\<rparr>]"
  "freeStageListener_calls (DoughChef, 1) (fresh_kitchen [3, 0, 5])
     = [(1, (DoughChef, 1)), (2, (DoughChef, 1)), (3, (DoughChef, 1))]"
  "prep_ready (freeStageListener (DoughChef, 1) (fresh_kitchen [3, 0, 5])) (DoughChef, Suc 0) = False"
  by (simp_all add: fresh_kitchen_def eval_defs del: scan.simps(2) resume.simps(2) run_late.simps(2))

theorem one_pairing_per_listener_witness:
  "timers (freeStageListener (DoughChef, 1) (fresh_kitchen [3, 0, 5]))
     = timers (fresh_kitchen [3, 0, 5]) @ [\<lparr>due = 7000, t_order = 1, t_prep = (DoughChef, 1)\<rparr>]
   \<and> \<not> isReady (Prep (DoughChef, 1)) (freeStageListener (DoughChef, 1) (fresh_kitchen [3, 0, 5]))
   \<and> \<not> isReady (Prep (DoughChef, 1))
         (scan [(2, (DoughChef, 1)), (3, (DoughChef, 1))]
           (freeStageListener (DoughChef, 1) (fresh_kitchen [3, 0, 5])))
   \<and> filter (\<lambda>t. Ord (t_order t) = Prep (DoughChef, 1) \<or> Prep (t_prep t) = Prep (DoughChef, 1))
         (timers (scan [(2, (DoughChef, 1)), (3, (DoughChef, 1))]
                   (freeStageListener (DoughChef, 1) (fresh_kitchen [3, 0, 5]))))
     = [\<lparr>due = 7000, t_order = 1, t_prep = (DoughChef, 1)\<rparr>]"
proof -
  let ?s = "freeStageListener (DoughChef, 1) (fresh_kitchen [3, 0, 5])"
  have a: "timers ?s = timers (fresh_kitchen [3, 0, 5])
             @ [\<lparr>due = 7000, t_order = 1, t_prep = (DoughChef, 1)\<rparr>]"
    using fresh_3_0_5 by simp
  have b: "\<not> isReady (Prep (DoughChef, 1)) ?s"
    using fresh_3_0_5 by simp
  have c: "\<not> isReady (Prep (DoughChef, 1)) (scan [(2, (DoughChef, 1)), (3, (DoughChef, 1))] ?s)
     \<and> filter (\<lambda>t. Ord (t_order t) = Prep (DoughChef, 1) \<or> Prep (t_prep t) = Prep (DoughChef, 1))
          (timers (scan [(2, (DoughChef, 1)), (3, (DoughChef, 1))] ?s))
       = filter (\<lambda>t. Ord (t_order t) = Prep (DoughChef, 1) \<or> Prep (t_prep t) = Prep (DoughChef, 1))
          (timers ?s)"
    using one_pairing_per_listener [of "(DoughChef, 1)" ?s 1] b by blast
  have d: "filter (\<lambda>t. Ord (t_order t) = Prep (DoughChef, 1) \<or> Prep (t_prep t) = Prep (DoughChef, 1))
          (timers ?s) = [\<lparr>due = 7000, t_order = 1, t_prep = (DoughChef, 1)\<rparr>]"
    using fresh_3_0_5 by simp
  show ?thesis using a b c d by simp
qed

section \<open>The value \<^verbatim>\<open>attemptToProcess\<close> resolves to, and a time of zero\<close>

lemma fresh_4:
  "ready (order_obj (fresh_kitchen [4]) (Suc 0))"
  "prep_ready (fresh_kitchen [4]) (DoughChef, Suc 0)"
  "stage (order_obj (fresh_kitchen [4]) (Suc 0)) = DOUGHCHEF"
  "toppingsCount (order_obj (fresh_kitchen [4]) (Suc 0)) = 4"
  "timers (fresh_kitchen [4]) = []"
  "now (fresh_kitchen [4]) = 0"
  by (simp_all add: fresh_kitchen_def eval_defs del: scan.simps(2) resume.simps(2) run_late.simps(2))

lemma script_calculateProcessingTime_topping:
  "script_calculateProcessingTime (ToppingChef, i) ord = 2000 * s_toppingsCount ord"
proof -
  have "real (msToPrep (script_getConfig ToppingChef)) * real (s_toppingsCount ord) / 2
        = real_of_int (int (2000 * s_toppingsCount ord))"
    by (simp add: new_PrepConfig_def)
  then have "\<lceil>real (msToPrep (script_getConfig ToppingChef)) * real (s_toppingsCount ord) / 2\<rceil>
        = int (2000 * s_toppingsCount ord)"
    by (simp only: ceiling_of_int)
  then show ?thesis by simp
qed

text \<open>
  C9.  The first call the script makes: order 1 and dough chef 1, both free.  The
  pairing starts (the timer is set) and the value the call resolves to is
  \<^verbatim>\<open>undefined\<close>, which is not truthy.  The same holds for script.js.
\<close>

theorem attemptToProcess_started_not_truthy:
  "fst (attemptToProcess 1 (DoughChef, 1) (fresh_kitchen [4])) = JUndefined
   \<and> \<not> truthy (fst (attemptToProcess 1 (DoughChef, 1) (fresh_kitchen [4])))
   \<and> timers (snd (attemptToProcess 1 (DoughChef, 1) (fresh_kitchen [4])))
       = [\<lparr>due = 7000, t_order = 1, t_prep = (DoughChef, 1)\<rparr>]
   \<and> fst (script_attemptToProcess 1 (DoughChef, 1)
             (script_kitchen_at (script_StageTypes ''DOUGHCHEF'') 4)) = JUndefined
   \<and> s_timers (snd (script_attemptToProcess 1 (DoughChef, 1)
             (script_kitchen_at (script_StageTypes ''DOUGHCHEF'') 4)))
       = [\<lparr>due = 1700000007000, t_order = 1, t_prep = (DoughChef, 1)\<rparr>]"
proof -
  have "starts 1 (DoughChef, 1) (fresh_kitchen [4])"
    using fresh_4
    by (simp add: starts_def getStage_def calculateProcessingTime_other doughChefConfig_def
        new_PrepConfig_def)
  then have "attemptToProcess 1 (DoughChef, 1) (fresh_kitchen [4])
             = (JUndefined, started 1 (DoughChef, 1) (fresh_kitchen [4]))"
    by (rule attemptToProcess_start)
  moreover have "timers (started 1 (DoughChef, 1) (fresh_kitchen [4]))
       = [\<lparr>due = 7000, t_order = 1, t_prep = (DoughChef, 1)\<rparr>]"
    using fresh_4
    by (simp add: started_def calculateProcessingTime_other doughChefConfig_def new_PrepConfig_def)
  ultimately show ?thesis
    by (simp add: script_attemptToProcess_def script_kitchen_at_def script_StageTypes_def
        new_PrepConfig_def Let_def)
qed

lemma script_attemptToProcess_falsy: "\<not> truthy (fst (script_attemptToProcess i p s))"
  by (simp add: script_attemptToProcess_def Let_def)

lemma attemptToProcess_zero_time:
  "calculateProcessingTime p (order_obj s i) = 0 \<Longrightarrow> attemptToProcess i p s = (JBoolean False, s)"
  by (rule attemptToProcess_no_start) (simp add: starts_def)

text \<open>
  C6, as the claim states it, fails for script.js: an order with no toppings, free at
  the topping stage, and a free topping chef.  The time is 0, and the call marks the
  chef and the order busy, logs, and sets a timer that is due at once.
\<close>

theorem script_zero_duration_counterexample:
  "script_calculateProcessingTime (ToppingChef, 1)
      (s_order_obj (script_kitchen_at (script_StageTypes ''TOPPINGCHEF'') 0) 1) = 0
   \<and> fst (script_attemptToProcess 1 (ToppingChef, 1)
            (script_kitchen_at (script_StageTypes ''TOPPINGCHEF'') 0)) = JUndefined
   \<and> \<not> s_ready (s_order_obj (snd (script_attemptToProcess 1 (ToppingChef, 1)
            (script_kitchen_at (script_StageTypes ''TOPPINGCHEF'') 0))) 1)
   \<and> s_startTime (snd (script_attemptToProcess 1 (ToppingChef, 1)
            (script_kitchen_at (script_StageTypes ''TOPPINGCHEF'') 0))) (ToppingChef, 1)
       = JNumber 1700000000000
   \<and> s_timers (snd (script_attemptToProcess 1 (ToppingChef, 1)
            (script_kitchen_at (script_StageTypes ''TOPPINGCHEF'') 0)))
       = [\<lparr>due = 1700000000000, t_order = 1, t_prep = (ToppingChef, 1)\<rparr>]"
  by (simp add: script_attemptToProcess_def script_kitchen_at_def script_StageTypes_def
      new_PrepConfig_def Let_def script_calculateProcessingTime_topping)

text \<open>
  C6, amended.  In part_000 a call of \<^verbatim>\<open>attemptToProcess\<close> whose computed time is 0
  returns \<^verbatim>\<open>false\<close> and leaves the state as it was: no mark, no log, no timer.  In
  script.js, which has no check of the time, every call for a free order and a free
  worker of the same stage marks both busy and sets a timer, whatever the time.
\<close>

theorem zero_duration_rejected:
  "(calculateProcessingTime p (order_obj s i) = 0 \<longrightarrow>
      attemptToProcess i p s = (JBoolean False, s))
   \<and> (s_ready (s_order_obj z i) \<and> \<not> truthy (s_startTime z p)
        \<and> s_stage (s_order_obj z i) = stageType (script_getConfig (fst p)) \<longrightarrow>
      fst (script_attemptToProcess i p z) = JUndefined
      \<and> \<not> s_ready (s_order_obj (snd (script_attemptToProcess i p z)) i)
      \<and> s_startTime (snd (script_attemptToProcess i p z)) p = JNumber (int (s_now z))
      \<and> s_timers (snd (script_attemptToProcess i p z))
          = s_timers z @ [\<lparr>due = s_now z + script_calculateProcessingTime p (s_order_obj z i),
                            t_order = i, t_prep = p\<rparr>])"
proof -
  have "script_calculateProcessingTime p ((s_order_obj z i)\<lparr>s_ready := False\<rparr>)
        = script_calculateProcessingTime p (s_order_obj z i)"
    by (cases p; cases "fst p") (simp_all add: script_calculateProcessingTime_topping)
  then show ?thesis
    by (simp add: attemptToProcess_zero_time script_attemptToProcess_def Let_def)
qed

lemma zero_toppings_state:
  "timers (projr (run_script 20 [0])) = []"
  "trace (projr (run_script 20 [0])) =
     [Set_ready (Prep (DoughChef, 1)) False, Set_ready (Ord 1) False,
      Log_processing 1 (DoughChef, 1) 7000, Set_ready (Ord 1) True, Emit (Ord 1),
      Set_ready (Prep (DoughChef, 1)) True, Emit (Prep (DoughChef, 1))]"
  "toppingsCount (order_obj (projr (run_script 20 [0])) (Suc 0)) = 0"
  by (simp_all add: eval_defs del: scan.simps(2) resume.simps(2) run_late.simps(2))

theorem zero_duration_rejected_witness:
  "calculateProcessingTime (ToppingChef, 1) (order_obj (projr (run_script 20 [0])) 1) = 0
   \<and> attemptToProcess 1 (ToppingChef, 1) (projr (run_script 20 [0]))
       = (JBoolean False, projr (run_script 20 [0]))
   \<and> s_ready (s_order_obj (script_kitchen_at (script_StageTypes ''TOPPINGCHEF'') 0) 1)
   \<and> \<not> truthy (s_startTime (script_kitchen_at (script_StageTypes ''TOPPINGCHEF'') 0) (ToppingChef, 1))
   \<and> s_stage (s_order_obj (script_kitchen_at (script_StageTypes ''TOPPINGCHEF'') 0) 1)
       = stageType (script_getConfig (fst (ToppingChef, 1::nat)))
   \<and> s_timers (snd (script_attemptToProcess 1 (ToppingChef, 1)
            (script_kitchen_at (script_StageTypes ''TOPPINGCHEF'') 0)))
       = [\<lparr>due = 1700000000000, t_order = 1, t_prep = (ToppingChef, 1)\<rparr>]"
proof -
  let ?s = "projr (run_script 20 [0])"
  let ?z = "script_kitchen_at (script_StageTypes ''TOPPINGCHEF'') 0"
  have t: "calculateProcessingTime (ToppingChef, 1) (order_obj ?s 1) = 0"
    using zero_toppings_state(3) by (simp add: calculateProcessingTime_topping)
  have h: "s_ready (s_order_obj ?z 1) \<and> \<not> truthy (s_startTime ?z (ToppingChef, 1))
        \<and> s_stage (s_order_obj ?z 1) = stageType (script_getConfig (fst (ToppingChef, 1::nat)))"
    by (simp add: script_kitchen_at_def new_PrepConfig_def)
  have z: "script_calculateProcessingTime (ToppingChef, 1) (s_order_obj ?z 1) = 0"
    "s_timers ?z = []" "s_now ?z = 1700000000000"
    by (simp_all add: script_kitchen_at_def script_calculateProcessingTime_topping)
  show ?thesis
    using zero_duration_rejected [of "(ToppingChef, 1)" ?s 1 ?z] t h z by simp
qed

section \<open>The order of events in the callback of a timer\<close>

lemma attemptToProcess_trace:
  "\<exists>es. trace (snd (attemptToProcess i p s)) = trace s @ es \<and> quiet es"
proof (cases "starts i p s")
  case True
  then show ?thesis by (simp add: attemptToProcess_start started_def quiet_def)
next
  case False
  then show ?thesis by (simp add: attemptToProcess_no_start quiet_def)
qed

lemma resume_trace: "\<exists>es. trace (resume calls s) = trace s @ es \<and> quiet es"
proof (cases calls)
  case Nil
  then show ?thesis by (simp add: quiet_def)
next
  case (Cons c rest)
  obtain i p where c: "c = (i, p)" by (cases c)
  show ?thesis
    unfolding Cons c resume_Cons using attemptToProcess_trace [of i p s] by simp
qed

lemma emit_trace: "\<exists>es. trace (emit x s) = trace s @ [Emit x] @ es \<and> quiet es"
proof (cases x)
  case (Ord i)
  show ?thesis
    using resume_trace [of "freeOrderListener_calls i (console_log (Emit (Ord i)) s)"
        "console_log (Emit (Ord i)) s"]
    by (simp add: Ord emit.simps Let_def console_log_def)
next
  case (Prep p)
  show ?thesis
    using resume_trace [of "freeStageListener_calls p (console_log (Emit (Prep p)) s)"
        "console_log (Emit (Prep p)) s"]
    by (simp add: Prep emit.simps Let_def console_log_def)
qed

lemma emit_prep_ready_order: "isReady (Prep p) (console_log e s) = isReady (Prep p) s"
  by (simp add: console_log_def)

lemma moveOrder_trace:
  assumes "moveOrder i prior s = Inr s'"
  shows "(\<exists>es. trace s' = trace s @ es \<and> quiet es) \<and> prep_ready s' = prep_ready s"
proof -
  obtain s2 where s2: "logIfDoneProcessingAll s2 = Inr s'" "trace s2 = trace s"
      "prep_ready s2 = prep_ready s"
    using assms by (auto simp add: moveOrder_def Let_def split: option.splits)
  then have "(trace s' = trace s2 \<or> (\<exists>d. trace s' = trace s2 @ [Log_done_all d]))
      \<and> prep_ready s' = prep_ready s2"
    by (auto simp add: logIfDoneProcessingAll_def console_log_def split: option.splits if_splits)
  then show ?thesis using s2 by (auto simp add: quiet_def)
qed

lemma Order_postProcess_shape:
  assumes "Order_postProcess i s = Inr s1"
  shows "\<exists>s2 pre. s1 = emit (Ord i) (enableReady (Ord i) s2)
           \<and> trace s2 = trace s @ pre \<and> quiet pre \<and> prep_ready s2 = prep_ready s"
proof -
  obtain nxt where nx: "getNextStage (stage (order_obj s i)) = Inr nxt"
    using assms by (auto simp add: Order_postProcess_def Let_def split: sum.splits)
  let ?s1 = "s\<lparr>order_obj := (order_obj s)(i := (order_obj s i)\<lparr>stage := nxt\<rparr>)\<rparr>"
  obtain s2 where s2: "moveOrder i (stage (order_obj s i)) (logIfDoneProcessing i ?s1) = Inr s2"
      "s1 = emit (Ord i) (enableReady (Ord i) s2)"
    using assms nx by (auto simp add: Order_postProcess_def Let_def split: sum.splits)
  have l: "(\<exists>es. trace (logIfDoneProcessing i ?s1) = trace s @ es \<and> quiet es)
      \<and> prep_ready (logIfDoneProcessing i ?s1) = prep_ready s"
    by (simp add: logIfDoneProcessing_def console_log_def quiet_def)
  obtain es1 where e1: "trace (logIfDoneProcessing i ?s1) = trace s @ es1" "quiet es1"
    using l by blast
  obtain es2 where e2: "trace s2 = trace (logIfDoneProcessing i ?s1) @ es2" "quiet es2"
    using moveOrder_trace [OF s2(1)] by blast
  have "trace s2 = trace s @ (es1 @ es2)" "quiet (es1 @ es2)" "prep_ready s2 = prep_ready s"
    using e1 e2 l moveOrder_trace [OF s2(1)] by (auto simp add: quiet_def)
  then show ?thesis using s2(2) by blast
qed

text \<open>
  C7, as the claim states it, fails: the callback of the first timer of a run with
  one order.  The trace of the run up to the end of the callback shows the emit for the
  order, and the first call of its listener (which starts the pairing with topping chef
  1), before \<^verbatim>\<open>enableReady\<close> of the dough chef.
\<close>

theorem completion_trigger_counterexample:
  "timers (projr (script_start [4])) = [\<lparr>due = 7000, t_order = 1, t_prep = (DoughChef, 1)\<rparr>]
   \<and> trace (projr (completion 1 (DoughChef, 1)
              ((projr (script_start [4]))\<lparr>timers := [], now := 7000\<rparr>)))
     = [Set_ready (Prep (DoughChef, 1)) False, Set_ready (Ord 1) False,
        Log_processing 1 (DoughChef, 1) 7000,
        Set_ready (Ord 1) True, Emit (Ord 1),
        Set_ready (Prep (ToppingChef, 1)) False, Set_ready (Ord 1) False,
        Log_processing 1 (ToppingChef, 1) 8000,
        Set_ready (Prep (DoughChef, 1)) True, Emit (Prep (DoughChef, 1))]"
  by (simp add: eval_defs del: scan.simps(2) resume.simps(2) run_late.simps(2))

text \<open>
  C7, amended.  The callback marks the order free and then emits for the order; after
  that it marks the worker free and then emits for the worker.  So both have been
  marked free when \<^verbatim>\<open>freeStageListener\<close> starts, and the order has been marked free
  when \<^verbatim>\<open>freeOrderListener\<close> starts; but \<^verbatim>\<open>freeOrderListener\<close> starts, and makes its
  first call of \<^verbatim>\<open>attemptToProcess\<close>, in a state in which the worker's mark is the one
  it had when the timer fired.
\<close>

theorem completion_order_of_events:
  assumes "completion i p s = Inr s'"
  shows "\<exists>s2 pre mid post.
      Order_postProcess i s = Inr (emit (Ord i) (enableReady (Ord i) s2))
      \<and> isReady (Ord i) (enableReady (Ord i) s2)
      \<and> isReady (Prep p) (enableReady (Ord i) s2) = isReady (Prep p) s
      \<and> s' = emit (Prep p) (enableReady (Prep p) (emit (Ord i) (enableReady (Ord i) s2)))
      \<and> isReady (Prep p) (enableReady (Prep p) (emit (Ord i) (enableReady (Ord i) s2)))
      \<and> trace s' = trace s @ pre @ [Set_ready (Ord i) True, Emit (Ord i)] @ mid
                     @ [Set_ready (Prep p) True, Emit (Prep p)] @ post
      \<and> quiet pre \<and> quiet mid \<and> quiet post"
proof -
  obtain s1 where s1: "Order_postProcess i s = Inr s1" "s' = PrepStage_postProcess p s1"
    using assms by (auto simp add: completion_def split: sum.splits)
  obtain s2 pre where s2: "s1 = emit (Ord i) (enableReady (Ord i) s2)"
      "trace s2 = trace s @ pre" "quiet pre" "prep_ready s2 = prep_ready s"
    using Order_postProcess_shape [OF s1(1)] by blast
  let ?a = "enableReady (Ord i) s2"
  let ?b = "enableReady (Prep p) s1"
  obtain mid where mid: "trace s1 = trace ?a @ [Emit (Ord i)] @ mid" "quiet mid"
    unfolding s2(1) using emit_trace [of "Ord i" ?a] by blast
  obtain post where post: "trace s' = trace ?b @ [Emit (Prep p)] @ post" "quiet post"
    unfolding s1(2) PrepStage_postProcess_def using emit_trace [of "Prep p" ?b] by blast
  have ta: "trace ?a = trace s @ pre @ [Set_ready (Ord i) True]"
    using s2(2) by (simp add: enableReady_def console_log_def)
  have tb: "trace ?b = trace s1 @ [Set_ready (Prep p) True]"
    by (simp add: enableReady_def console_log_def)
  have tr: "trace s' = trace s @ pre @ [Set_ready (Ord i) True, Emit (Ord i)] @ mid
                     @ [Set_ready (Prep p) True, Emit (Prep p)] @ post"
    using post(1) tb mid(1) ta by simp
  have r1: "isReady (Ord i) ?a" "isReady (Prep p) ?a = isReady (Prep p) s"
    using s2(4) by (simp_all add: enableReady_def console_log_def)
  have r2: "isReady (Prep p) ?b"
    by (simp add: enableReady_def console_log_def)
  have e: "s' = emit (Prep p) ?b"
    using s1(2) by (simp add: PrepStage_postProcess_def)
  show ?thesis
    using s1(1) s2(1) s2(3) mid(2) post(2) tr r1 r2 e by blast
qed

lemma first_completion_succeeds:
  "completion 1 (DoughChef, 1) ((projr (script_start [4]))\<lparr>timers := [], now := 7000\<rparr>)
   = Inr (projr (completion 1 (DoughChef, 1)
                  ((projr (script_start [4]))\<lparr>timers := [], now := 7000\<rparr>)))"
proof -
  let ?s = "projr (script_start [4])"
  let ?t = "\<lparr>due = 7000, t_order = 1, t_prep = (DoughChef, 1)\<rparr>"
  have tm: "timers ?s = [?t]"
    by (simp add: eval_defs del: scan.simps(2) resume.simps(2) run_late.simps(2))
  then have "?t \<in> set (timers ?s)" by simp
  from completion_invariant [OF reachable_invariant [OF reachable_start] this]
  obtain s' where "completion 1 (DoughChef, 1) (?s\<lparr>timers := [], now := 7000\<rparr>) = Inr s'"
    using tm by auto
  then show ?thesis by simp
qed

theorem completion_order_of_events_witness:
  "\<not> isReady (Prep (DoughChef, 1)) (projr (script_start [4]))
   \<and> (\<exists>s2 pre mid post.
      Order_postProcess 1 ((projr (script_start [4]))\<lparr>timers := [], now := 7000\<rparr>)
        = Inr (emit (Ord 1) (enableReady (Ord 1) s2))
      \<and> isReady (Ord 1) (enableReady (Ord 1) s2)
      \<and> \<not> isReady (Prep (DoughChef, 1)) (enableReady (Ord 1) s2)
      \<and> isReady (Prep (DoughChef, 1))
           (enableReady (Prep (DoughChef, 1)) (emit (Ord 1) (enableReady (Ord 1) s2)))
      \<and> trace (projr (completion 1 (DoughChef, 1)
                  ((projr (script_start [4]))\<lparr>timers := [], now := 7000\<rparr>)))
         = trace (projr (script_start [4])) @ pre @ [Set_ready (Ord 1) True, Emit (Ord 1)] @ mid
             @ [Set_ready (Prep (DoughChef, 1)) True, Emit (Prep (DoughChef, 1))] @ post
      \<and> quiet pre \<and> quiet mid \<and> quiet post)"
proof -
  let ?s = "(projr (script_start [4]))\<lparr>timers := [], now := 7000\<rparr>"
  have busy: "\<not> isReady (Prep (DoughChef, 1)) (projr (script_start [4]))"
    by (simp add: eval_defs del: scan.simps(2) resume.simps(2) run_late.simps(2))
  then have busy': "\<not> isReady (Prep (DoughChef, 1)) ?s" by simp
  have tr: "trace ?s = trace (projr (script_start [4]))" by simp
  show ?thesis
    using completion_order_of_events [OF first_completion_succeeds] busy busy' tr
    by (simp only:) blast
qed

section \<open>Milliseconds\<close>







end
